theory Spec2Isabelle
  imports Complex_Main "HOL-Library.Sublist" "HOL-Library.Char_ord" "HOL-Library.Multiset"
begin

section \<open>Python strings, restricted to ASCII\<close>

text \<open>
  A Python \<open>str\<close> is modelled as a \<open>string\<close>, a list of 8-bit characters. The
  character classes below are the ASCII part of Python's; a character above 127 is
  treated as neither letter, digit nor white space and has no case. In the arithmetic
  of \<open>Ranker\<close> below a Python float is an exact real: rounding and the infinities are
  outside the model, and NaN enters with the ranking pass.
\<close>

definition is_upper :: "char \<Rightarrow> bool" where
  "is_upper c = (CHR ''A'' \<le> c \<and> c \<le> CHR ''Z'')"

definition is_lower :: "char \<Rightarrow> bool" where
  "is_lower c = (CHR ''a'' \<le> c \<and> c \<le> CHR ''z'')"

definition is_alpha :: "char \<Rightarrow> bool" where
  "is_alpha c = (is_lower c \<or> is_upper c)"

definition is_digit :: "char \<Rightarrow> bool" where
  "is_digit c = (CHR ''0'' \<le> c \<and> c \<le> CHR ''9'')"

definition is_space :: "char \<Rightarrow> bool" where
  \<comment> \<open>\<open>str.isspace\<close> and the regex class \<open>\s\<close> on ASCII: codes 9 to 13, 28 to 32.\<close>
  "is_space c = ((CHR 0x09 \<le> c \<and> c \<le> CHR 0x0D) \<or> (CHR 0x1C \<le> c \<and> c \<le> CHR 0x20))"

definition lower_char :: "char \<Rightarrow> char" where
  \<comment> \<open>An upper-case ASCII letter plus 32 (bit 5 set) is its lower-case letter.\<close>
  "lower_char c =
     (if is_upper c
      then (case c of Char b0 b1 b2 b3 b4 b5 b6 b7 \<Rightarrow> Char b0 b1 b2 b3 b4 True b6 b7)
      else c)"

definition lower :: "string \<Rightarrow> string" where
  \<comment> \<open>\<open>str.lower()\<close>\<close>
  "lower s = map lower_char s"

fun count_from :: "string \<Rightarrow> string \<Rightarrow> nat" where
  "count_from sub [] = 0"
| "count_from sub (c # cs) =
     (if prefix sub (c # cs) then Suc (count_from sub (drop (length sub - 1) cs))
      else count_from sub cs)"

definition str_count :: "string \<Rightarrow> string \<Rightarrow> nat" where
  \<comment> \<open>\<open>t.count(sub)\<close>: occurrences found left to right, the scan resuming after each
      one; the empty string is counted once at every position, \<open>len(t) + 1\<close> times.\<close>
  "str_count sub t = (if sub = [] then length t + 1 else count_from sub t)"

section \<open>Python dictionaries\<close>

text \<open>
  A \<open>dict\<close> keeps its keys in insertion order: an association list with distinct keys.
  Assigning to a present key replaces the value in place.
\<close>

type_synonym 'v pydict = "(string \<times> 'v) list"

fun dict_set :: "'v pydict \<Rightarrow> string \<Rightarrow> 'v \<Rightarrow> 'v pydict" where
  "dict_set [] k v = [(k, v)]"
| "dict_set ((k', v') # d) k v =
     (if k' = k then (k', v) # d else (k', v') # dict_set d k v)"

definition dict_get :: "'v pydict \<Rightarrow> string \<Rightarrow> 'v option" where
  "dict_get d k = map_of d k"

definition dict_keys :: "'v pydict \<Rightarrow> string list" where
  "dict_keys d = map fst d"

section \<open>Ranker\<close>

record Ranker =
  keywords_of :: "real pydict"
  role :: string

definition Ranker_init :: "(string \<times> real) list \<Rightarrow> string \<Rightarrow> Ranker" where
  \<comment> \<open>\<open>{k.lower(): float(v) for k, v in keywords.items()}\<close> and \<open>role.lower()\<close>\<close>
  "Ranker_init kws r =
     \<lparr>keywords_of = foldl (\<lambda>d (k, v). dict_set d (lower k) v) [] kws, role = lower r\<rparr>"

fun tokens_from :: "string \<Rightarrow> string \<Rightarrow> string list" where
  \<comment> \<open>the scan of \<open>re.findall(r"[a-zA-Z]{3,}", t)\<close>: the first argument is the run of
      letters read so far, reversed; a run is kept when it has three letters or more\<close>
  "tokens_from run [] = (if 3 \<le> length run then [rev run] else [])"
| "tokens_from run (c # cs) =
     (if is_alpha c then tokens_from (c # run) cs
      else (if 3 \<le> length run then [rev run] else []) @ tokens_from [] cs)"

definition findall_alpha3 :: "string \<Rightarrow> string list" where
  "findall_alpha3 t = tokens_from [] t"

definition diversity :: "string \<Rightarrow> real" where
  \<comment> \<open>\<open>min(len(set(re.findall(...))) / 500.0, 5.0)\<close>\<close>
  "diversity t = min (real (card (set (findall_alpha3 t))) / 500) 5"

definition kw_step :: "string \<Rightarrow> real \<times> real pydict \<Rightarrow> string \<times> real \<Rightarrow> real \<times> real pydict" where
  \<comment> \<open>one round of the loop over \<open>self.keywords.items()\<close>\<close>
  "kw_step t st kw =
     (case st of (tot, matched) \<Rightarrow> case kw of (k, w) \<Rightarrow>
        let cnt = str_count k t in
        if cnt \<noteq> 0 then (tot + real cnt * w, dict_set matched k (real cnt * w))
        else (tot, matched))"

definition PARSE_ERROR :: string where
  "PARSE_ERROR = ''[PARSE_ERROR]''"

definition score :: "Ranker \<Rightarrow> string \<Rightarrow> real \<times> real pydict" where
  "score r text =
     (let t = lower text in
      if prefix ''[parse_error]'' t then (0, [])
      else
        let (tot, matched) = foldl (kw_step t) (0, []) (keywords_of r);
            tot = (if role r \<noteq> [] then tot + 2 * real (str_count (role r) t) else tot);
            tot = tot + diversity t
        in (tot, matched))"

text \<open>The quantities the properties of \<open>score\<close> are stated with.\<close>

definition contribution :: "string \<Rightarrow> string \<times> real \<Rightarrow> real" where
  "contribution t kw = real (str_count (fst kw) t) * snd kw"

definition hits :: "string \<Rightarrow> real pydict \<Rightarrow> real pydict" where
  "hits t d = filter (\<lambda>kw. 0 < str_count (fst kw) t) d"

definition role_bonus :: "Ranker \<Rightarrow> string \<Rightarrow> real" where
  "role_bonus r t = (if role r \<noteq> [] then 2 * real (str_count (role r) t) else 0)"

definition weight_le :: "string \<times> real \<Rightarrow> string \<times> real \<Rightarrow> bool" where
  "weight_le p q = (fst p = fst q \<and> snd p \<le> snd q)"

section \<open>The ranking pass\<close>

text \<open>
  The weights that \<open>parse_keywords\<close> reads are what \<open>float\<close> accepts, and \<open>float\<close>
  accepts \<open>nan\<close>. In the ranking pass a float is therefore a number, kept exact, or NaN:
  an operation on NaN gives NaN and a comparison with NaN is false. Rounding and the
  infinities stay outside the model.
\<close>

datatype pyfloat = Fin real | NaN

fun fadd :: "pyfloat \<Rightarrow> pyfloat \<Rightarrow> pyfloat" where
  "fadd (Fin a) (Fin b) = Fin (a + b)"
| "fadd (Fin a) NaN = NaN"
| "fadd NaN b = NaN"

fun fmul :: "pyfloat \<Rightarrow> pyfloat \<Rightarrow> pyfloat" where
  "fmul (Fin a) (Fin b) = Fin (a * b)"
| "fmul (Fin a) NaN = NaN"
| "fmul NaN b = NaN"

fun flt :: "pyfloat \<Rightarrow> pyfloat \<Rightarrow> bool" where
  \<comment> \<open>\<open>a < b\<close>\<close>
  "flt (Fin a) (Fin b) = (a < b)"
| "flt (Fin a) NaN = False"
| "flt NaN b = False"

fun fle :: "pyfloat \<Rightarrow> pyfloat \<Rightarrow> bool" where
  \<comment> \<open>\<open>a <= b\<close>\<close>
  "fle (Fin a) (Fin b) = (a \<le> b)"
| "fle (Fin a) NaN = False"
| "fle NaN b = False"

text \<open>
  \<open>Ranker\<close> on such weights: the code of \<open>Ranker_init\<close>, \<open>kw_step\<close> and \<open>score\<close> with the
  float operations. On weights that are numbers it is \<open>score\<close>.
\<close>

record Ranker_f =
  keywords_f :: "pyfloat pydict"
  role_f :: string

definition Ranker_init_f :: "(string \<times> pyfloat) list \<Rightarrow> string \<Rightarrow> Ranker_f" where
  "Ranker_init_f kws r =
     \<lparr>keywords_f = foldl (\<lambda>d (k, v). dict_set d (lower k) v) [] kws, role_f = lower r\<rparr>"

definition kw_step_f ::
  "string \<Rightarrow> pyfloat \<times> pyfloat pydict \<Rightarrow> string \<times> pyfloat \<Rightarrow> pyfloat \<times> pyfloat pydict" where
  "kw_step_f t st kw =
     (case st of (tot, matched) \<Rightarrow> case kw of (k, w) \<Rightarrow>
        let cnt = str_count k t in
        if cnt \<noteq> 0
        then (fadd tot (fmul (Fin (real cnt)) w), dict_set matched k (fmul (Fin (real cnt)) w))
        else (tot, matched))"

definition score_f :: "Ranker_f \<Rightarrow> string \<Rightarrow> pyfloat \<times> pyfloat pydict" where
  "score_f r text =
     (let t = lower text in
      if prefix ''[parse_error]'' t then (Fin 0, [])
      else
        let (tot, matched) = foldl (kw_step_f t) (Fin 0, []) (keywords_f r);
            tot = (if role_f r \<noteq> [] then fadd tot (Fin (2 * real (str_count (role_f r) t)))
                   else tot);
            tot = fadd tot (Fin (diversity t))
        in (tot, matched))"

text \<open>
  \<open>CTkApp.rank_now\<close> acts on the list \<open>self.candidates\<close>; the keyword profile read from
  the entry field and the job title are its parameters here, and the table and preview it
  refreshes afterwards read the candidates without changing them.
\<close>

record Candidate =
  c_name :: string
  c_email :: "string option"
  c_phone :: "string option"
  c_path :: string
  c_text :: string
  c_score :: pyfloat
  c_matched :: "pyfloat pydict"
  c_summary :: string

text \<open>
  \<open>list.sort(key=..., reverse=True)\<close> compares the keys with \<open><\<close>. A list in which no
  element is directly followed by one with a greater key is a single run for the sort,
  which leaves it as it is. Otherwise, when every key is a number, the result is the
  stable sort: elements with equal keys keep their order; it is computed by an insertion
  sort that puts an element in front of the first one whose key is not greater. When a
  key is NaN the comparisons are inconsistent and the order that results is that of the
  sorting algorithm of the interpreter: it is the parameter \<open>unordered\<close> of the model.
\<close>

fun one_run :: "('a \<Rightarrow> pyfloat) \<Rightarrow> 'a list \<Rightarrow> bool" where
  "one_run key [] = True"
| "one_run key [x] = True"
| "one_run key (x # y # ys) = (\<not> flt (key x) (key y) \<and> one_run key (y # ys))"

fun insort_desc :: "('a \<Rightarrow> pyfloat) \<Rightarrow> 'a \<Rightarrow> 'a list \<Rightarrow> 'a list" where
  "insort_desc key x [] = [x]"
| "insort_desc key x (y # ys) =
     (if fle (key y) (key x) then x # y # ys else y # insort_desc key x ys)"

definition sort_desc :: "('a list \<Rightarrow> 'a list) \<Rightarrow> ('a \<Rightarrow> pyfloat) \<Rightarrow> 'a list \<Rightarrow> 'a list" where
  "sort_desc unordered key xs =
     (if one_run key xs then xs
      else if list_ex (\<lambda>x. key x = NaN) xs then unordered xs
      else foldr (insort_desc key) xs [])"

definition rescore :: "Ranker_f \<Rightarrow> Candidate \<Rightarrow> Candidate" where
  \<comment> \<open>\<open>sc, matched = r.score(c.text); c.score, c.matched = sc, matched\<close>\<close>
  "rescore r c =
     (case score_f r (c_text c) of (sc, matched) \<Rightarrow> c\<lparr>c_score := sc, c_matched := matched\<rparr>)"

definition rank_now ::
  "(Candidate list \<Rightarrow> Candidate list) \<Rightarrow> (string \<times> pyfloat) list \<Rightarrow> string \<Rightarrow>
     Candidate list \<Rightarrow> Candidate list" where
  "rank_now unordered kws job_title candidates =
     (if candidates = [] then candidates
      else sort_desc unordered c_score (map (rescore (Ranker_init_f kws job_title)) candidates))"

text \<open>The fields of a candidate that a ranking pass is not to touch.\<close>

definition frame ::
  "Candidate \<Rightarrow> string \<times> string option \<times> string option \<times> string \<times> string \<times> string" where
  "frame c = (c_name c, c_email c, c_phone c, c_path c, c_text c, c_summary c)"

text \<open>The keyword profile of numbers, as floats.\<close>

definition as_floats :: "real pydict \<Rightarrow> pyfloat pydict" where
  "as_floats d = map (\<lambda>kw. (fst kw, Fin (snd kw))) d"
section \<open>Regular expressions\<close>

text \<open>
  Python's \<open>re\<close> is a backtracking matcher. A position in the subject is the pair of the
  characters before it, nearest first, and the characters after it. Running a pattern at
  a position gives the positions where a match can end, in the order in which the
  matcher tries them: the first one is the match that \<open>re\<close> reports.
\<close>

type_synonym pos = "string \<times> string"

datatype rx =
    Cls "char \<Rightarrow> bool"       \<comment> \<open>one character of a class\<close>
  | Seq rx rx
  | Alt rx rx                  \<comment> \<open>\<open>r|s\<close>, \<open>r\<close> tried first\<close>
  | Rep nat nat rx             \<comment> \<open>\<open>r{m,n}\<close>, greedy\<close>
  | Lazy nat nat rx            \<comment> \<open>\<open>r{m,n}?\<close>, as few as possible\<close>
  | Many nat "char \<Rightarrow> bool"   \<comment> \<open>\<open>[class]{m,}\<close>, greedy\<close>
  | Bol                        \<comment> \<open>\<open>^\<close>\<close>
  | Eol                        \<comment> \<open>\<open>$\<close>: the end, or before a final newline\<close>
  | WordB                      \<comment> \<open>\<open>\b\<close>\<close>

fun rep_greedy :: "(pos \<Rightarrow> pos list) \<Rightarrow> nat \<Rightarrow> nat \<Rightarrow> pos \<Rightarrow> pos list" where
  "rep_greedy f m 0 p = (if m = 0 then [p] else [])"
| "rep_greedy f m (Suc n) p =
     concat (map (rep_greedy f (m - 1) n) (f p)) @ (if m = 0 then [p] else [])"

fun rep_lazy :: "(pos \<Rightarrow> pos list) \<Rightarrow> nat \<Rightarrow> nat \<Rightarrow> pos \<Rightarrow> pos list" where
  "rep_lazy f m 0 p = (if m = 0 then [p] else [])"
| "rep_lazy f m (Suc n) p =
     (if m = 0 then [p] else []) @ concat (map (rep_lazy f (m - 1) n) (f p))"

fun many_greedy :: "(char \<Rightarrow> bool) \<Rightarrow> nat \<Rightarrow> pos \<Rightarrow> pos list" where
  "many_greedy P m (b, []) = (if m = 0 then [(b, [])] else [])"
| "many_greedy P m (b, c # cs) =
     (if P c then many_greedy P (m - 1) (c # b, cs) else [])
       @ (if m = 0 then [(b, c # cs)] else [])"

definition is_word :: "char \<Rightarrow> bool" where
  \<comment> \<open>the class \<open>\w\<close>\<close>
  "is_word c = (is_alpha c \<or> is_digit c \<or> c = CHR ''_'')"

definition word_at :: "string \<Rightarrow> bool" where
  "word_at s = (case s of [] \<Rightarrow> False | c # _ \<Rightarrow> is_word c)"

fun rx_run :: "rx \<Rightarrow> pos \<Rightarrow> pos list" where
  "rx_run (Cls P) p =
     (case snd p of [] \<Rightarrow> [] | c # cs \<Rightarrow> if P c then [(c # fst p, cs)] else [])"
| "rx_run (Seq r s) p = concat (map (rx_run s) (rx_run r p))"
| "rx_run (Alt r s) p = rx_run r p @ rx_run s p"
| "rx_run (Rep m n r) p = rep_greedy (rx_run r) m n p"
| "rx_run (Lazy m n r) p = rep_lazy (rx_run r) m n p"
| "rx_run (Many m P) p = many_greedy P m p"
| "rx_run Bol p = (if fst p = [] then [p] else [])"
| "rx_run Eol p = (if snd p = [] \<or> snd p = [CHR 0x0A] then [p] else [])"
| "rx_run WordB p = (if word_at (fst p) \<noteq> word_at (snd p) then [p] else [])"

definition span :: "pos \<Rightarrow> pos \<Rightarrow> string" where
  \<comment> \<open>the text between two positions of one subject\<close>
  "span p q = take (length (snd p) - length (snd q)) (snd p)"

definition re_match :: "rx \<Rightarrow> string \<Rightarrow> bool" where
  \<comment> \<open>\<open>pattern.match(s)\<close> as a truth value\<close>
  "re_match r s = (rx_run r ([], s) \<noteq> [])"

fun search_from :: "rx \<Rightarrow> string \<Rightarrow> string \<Rightarrow> string option" where
  \<comment> \<open>the leftmost match, \<open>m.group(0)\<close>\<close>
  "search_from r b [] =
     (case rx_run r (b, []) of e # _ \<Rightarrow> Some (span (b, []) e) | [] \<Rightarrow> None)"
| "search_from r b (c # cs) =
     (case rx_run r (b, c # cs) of e # _ \<Rightarrow> Some (span (b, c # cs) e)
      | [] \<Rightarrow> search_from r (c # b) cs)"

definition re_search :: "rx \<Rightarrow> string \<Rightarrow> string option" where
  "re_search r s = search_from r [] s"

fun search_group1_from :: "rx \<Rightarrow> rx \<Rightarrow> string \<Rightarrow> string \<Rightarrow> string option" where
  \<comment> \<open>the leftmost match of \<open>(r)s\<close>, \<open>m.group(1)\<close>: the first end of \<open>r\<close>, in the order
      of the matcher, at which \<open>s\<close> matches\<close>
  "search_group1_from r s b [] =
     (case filter (\<lambda>mid. rx_run s mid \<noteq> []) (rx_run r (b, [])) of
        mid # _ \<Rightarrow> Some (span (b, []) mid) | [] \<Rightarrow> None)"
| "search_group1_from r s b (c # cs) =
     (case filter (\<lambda>mid. rx_run s mid \<noteq> []) (rx_run r (b, c # cs)) of
        mid # _ \<Rightarrow> Some (span (b, c # cs) mid)
      | [] \<Rightarrow> search_group1_from r s (c # b) cs)"

definition re_search_group1 :: "rx \<Rightarrow> rx \<Rightarrow> string \<Rightarrow> string option" where
  "re_search_group1 r s t = search_group1_from r s [] t"

section \<open>More string functions\<close>

function sub_runs :: "(char \<Rightarrow> bool) \<Rightarrow> string \<Rightarrow> string" where
  \<comment> \<open>\<open>re.sub(r"[class]+", " ", s)\<close>: every maximal run of the class becomes one space\<close>
  "sub_runs P [] = []"
| "sub_runs P (c # cs) =
     (if P c then CHR '' '' # sub_runs P (dropWhile P cs) else c # sub_runs P cs)"
  by pat_completeness auto
termination
  by (relation "measure (\<lambda>(P, s). length s)")
    (auto simp: length_dropWhile_le less_Suc_eq_le)

function sub_runs2 :: "(char \<Rightarrow> bool) \<Rightarrow> string \<Rightarrow> string" where
  \<comment> \<open>\<open>re.sub(r"[class]{2,}", " ", s)\<close>: a run of two or more becomes one space\<close>
  "sub_runs2 P [] = []"
| "sub_runs2 P [c] = [c]"
| "sub_runs2 P (c # d # cs) =
     (if P c \<and> P d then CHR '' '' # sub_runs2 P (dropWhile P cs)
      else c # sub_runs2 P (d # cs))"
  by pat_completeness auto
termination
  by (relation "measure (\<lambda>(P, s). length s)")
    (auto simp: length_dropWhile_le less_Suc_eq_le le_SucI)

definition strip :: "string \<Rightarrow> string" where
  \<comment> \<open>\<open>s.strip()\<close>\<close>
  "strip s = rev (dropWhile is_space (rev (dropWhile is_space s)))"

fun split_ws_from :: "string \<Rightarrow> string \<Rightarrow> string list" where
  \<comment> \<open>the scan of \<open>s.split()\<close>: the first argument is the word read so far, reversed\<close>
  "split_ws_from w [] = (if w = [] then [] else [rev w])"
| "split_ws_from w (c # cs) =
     (if is_space c then (if w = [] then [] else [rev w]) @ split_ws_from [] cs
      else split_ws_from (c # w) cs)"

definition split_ws :: "string \<Rightarrow> string list" where
  "split_ws s = split_ws_from [] s"

fun split_sep_from :: "string \<Rightarrow> string \<Rightarrow> string \<Rightarrow> string list" where
  \<comment> \<open>the scan of \<open>s.split(sep)\<close> for a non-empty separator\<close>
  "split_sep_from sep w [] = [rev w]"
| "split_sep_from sep w (c # cs) =
     (if prefix sep (c # cs) then rev w # split_sep_from sep [] (drop (length sep - 1) cs)
      else split_sep_from sep (c # w) cs)"

definition split_sep :: "string \<Rightarrow> string \<Rightarrow> string list" where
  "split_sep sep s = split_sep_from sep [] s"

fun join :: "string \<Rightarrow> string list \<Rightarrow> string" where
  \<comment> \<open>\<open>sep.join(xs)\<close>\<close>
  "join sep [] = []"
| "join sep [x] = x"
| "join sep (x # y # ys) = x @ sep @ join sep (y # ys)"

fun find_last :: "char \<Rightarrow> string \<Rightarrow> int \<Rightarrow> int \<Rightarrow> int" where
  "find_last c [] i found = found"
| "find_last c (x # xs) i found = find_last c xs (i + 1) (if x = c then i else found)"

definition rfind :: "char \<Rightarrow> string \<Rightarrow> int" where
  \<comment> \<open>\<open>s.rfind(c)\<close>: the last index of \<open>c\<close>, or -1\<close>
  "rfind c s = find_last c s 0 (- 1)"

text \<open>
  \<open>os.path\<close> is modelled as \<open>posixpath\<close>: the separator is the slash.
\<close>

definition basename :: "string \<Rightarrow> string" where
  \<comment> \<open>\<open>os.path.basename(p)\<close>: what follows the last slash\<close>
  "basename p = drop (nat (rfind CHR ''/'' p + 1)) p"

definition splitext_root :: "string \<Rightarrow> string" where
  \<comment> \<open>\<open>os.path.splitext(p)[0]\<close>: the path up to the last dot of its last component,
      when a character other than a dot stands before that dot in the component\<close>
  "splitext_root p =
     (let sepIndex = rfind CHR ''/'' p; dotIndex = rfind CHR ''.'' p in
      if dotIndex > sepIndex
         \<and> list_ex (\<lambda>c. c \<noteq> CHR ''.'')
             (take (nat (dotIndex - (sepIndex + 1))) (drop (nat (sepIndex + 1)) p))
      then take (nat dotIndex) p
      else p)"

section \<open>CVProcessor: contact extraction\<close>

text \<open>
  The patterns of the class. The right single quotation mark U+2019 of the source's name
  classes is outside the 8-bit alphabet of the model.
\<close>

definition email_local :: "char \<Rightarrow> bool" where
  \<comment> \<open>\<open>[A-Za-z0-9._%+-]\<close>\<close>
  "email_local c = (is_alpha c \<or> is_digit c \<or> c \<in> set ''._%+-'')"

definition email_domain :: "char \<Rightarrow> bool" where
  \<comment> \<open>\<open>[A-Za-z0-9.-]\<close>\<close>
  "email_domain c = (is_alpha c \<or> is_digit c \<or> c \<in> set ''.-'')"

definition EMAIL_RE :: rx where
  \<comment> \<open>\<open>[A-Za-z0-9._%+-]+@[A-Za-z0-9.-]+\.[A-Za-z]{2,}\<close>\<close>
  "EMAIL_RE =
     Seq (Many 1 email_local) (Seq (Cls (\<lambda>c. c = CHR ''@''))
       (Seq (Many 1 email_domain) (Seq (Cls (\<lambda>c. c = CHR ''.'')) (Many 2 is_alpha))))"

definition dash_or_space :: "char \<Rightarrow> bool" where
  \<comment> \<open>\<open>[- ]\<close>\<close>
  "dash_or_space c = (c = CHR ''-'' \<or> c = CHR '' '')"

definition PHONE_RE :: rx where
  \<comment> \<open>\<open>(?:(?:\+\d{1,3}[- ]?)?\d{3}[- ]?\d{3}[- ]?\d{4})\<close>\<close>
  "PHONE_RE =
     Seq (Rep 0 1 (Seq (Cls (\<lambda>c. c = CHR ''+''))
            (Seq (Rep 1 3 (Cls is_digit)) (Rep 0 1 (Cls dash_or_space)))))
       (Seq (Rep 3 3 (Cls is_digit)) (Seq (Rep 0 1 (Cls dash_or_space))
         (Seq (Rep 3 3 (Cls is_digit)) (Seq (Rep 0 1 (Cls dash_or_space))
           (Rep 4 4 (Cls is_digit))))))"

definition name_letter :: "char \<Rightarrow> bool" where
  \<comment> \<open>\<open>[A-Za-z'-]\<close>\<close>
  "name_letter c = (is_alpha c \<or> c = CHR 0x27 \<or> c = CHR ''-'')"

definition NAME_LINE_RE :: rx where
  \<comment> \<open>\<open>^[A-Z][A-Za-z'-]+(?: [A-Z][A-Za-z'-]+){0,3}$\<close>\<close>
  "NAME_LINE_RE =
     Seq Bol (Seq (Cls is_upper) (Seq (Many 1 name_letter)
       (Seq (Rep 0 3 (Seq (Cls (\<lambda>c. c = CHR '' '')) (Seq (Cls is_upper) (Many 1 name_letter))))
         Eol)))"

definition name_char :: "char \<Rightarrow> bool" where
  \<comment> \<open>\<open>[A-Za-z '-]\<close>\<close>
  "name_char c = (name_letter c \<or> c = CHR '' '')"

definition sub_non_name :: "string \<Rightarrow> string" where
  \<comment> \<open>\<open>re.sub(r"[^A-Za-z '-]", " ", s)\<close>\<close>
  "sub_non_name s = map (\<lambda>c. if name_char c then c else CHR '' '') s"

definition ci :: "char \<Rightarrow> rx" where
  \<comment> \<open>a lower-case letter of a pattern compiled with \<open>re.I\<close>\<close>
  "ci c = Cls (\<lambda>x. lower_char x = c)"

definition CONTEXT_HEAD :: rx where
  \<comment> \<open>\<open>(.{0,60}?)\<close>: the dot is any character but the newline\<close>
  "CONTEXT_HEAD = Lazy 0 60 (Cls (\<lambda>c. c \<noteq> CHR 0x0A))"

definition CONTEXT_TAIL :: rx where
  \<comment> \<open>\<open>(?:\s+Email\b|@)\<close> with \<open>flags=re.I\<close>\<close>
  "CONTEXT_TAIL =
     Alt (Seq (Many 1 is_space) (Seq (ci CHR ''e'') (Seq (ci CHR ''m'') (Seq (ci CHR ''a'')
            (Seq (ci CHR ''i'') (Seq (ci CHR ''l'') WordB))))))
         (Cls (\<lambda>c. c = CHR ''@''))"

fun first_name_line :: "string list \<Rightarrow> string option" where
  \<comment> \<open>the loop \<open>for ln in head.split("  ")\<close>, up to its \<open>break\<close>\<close>
  "first_name_line [] = None"
| "first_name_line (l # ls) =
     (let ln = strip l in
      if ln = [] \<or> CHR ''@'' \<in> set ln \<or> list_ex is_digit ln then first_name_line ls
      else if length ln \<le> 60 \<and> re_match NAME_LINE_RE ln then Some ln
      else first_name_line ls)"

definition name_from_head :: "string \<Rightarrow> string option" where
  "name_from_head text =
     (let tokens = take 50 (split_ws (strip (sub_runs is_space text)));
          head = sub_non_name (join '' '' tokens)
      in first_name_line (split_sep ''  '' head))"

definition name_from_context :: "string \<Rightarrow> string option" where
  "name_from_context text =
     (case re_search_group1 CONTEXT_HEAD CONTEXT_TAIL text of
        None \<Rightarrow> None
      | Some g \<Rightarrow>
          let guess = sub_runs2 is_space (strip (sub_non_name g)) in
          if 2 \<le> length guess \<and> length guess \<le> 60 then Some guess else None)"

definition filename_base :: "string \<Rightarrow> string" where
  "filename_base fallback_filename =
     strip (sub_non_name
       (sub_runs (\<lambda>c. c = CHR ''_'' \<or> c = CHR ''-'') (splitext_root (basename fallback_filename))))"

definition name_from_filename :: "string \<Rightarrow> string" where
  \<comment> \<open>\<open>name = base or "(Unknown)"\<close>\<close>
  "name_from_filename fallback_filename =
     (let base = filename_base fallback_filename in if base = [] then ''(Unknown)'' else base)"

definition extract_contacts :: "string \<Rightarrow> string \<Rightarrow> string \<times> string option \<times> string option" where
  "extract_contacts text fallback_filename =
     (let email = re_search EMAIL_RE text;
          phone = re_search PHONE_RE text;
          name = (case name_from_head text of
                    Some n \<Rightarrow> n
                  | None \<Rightarrow>
                      (case name_from_context text of
                         Some n \<Rightarrow> n
                       | None \<Rightarrow> name_from_filename fallback_filename))
      in (name, email, phone))"


text \<open>
  A file name stem written as words with separators between them: the first word, then
  each separator with the word that follows it.
\<close>

fun words_with :: "string \<Rightarrow> (string \<times> string) list \<Rightarrow> string" where
  "words_with w [] = w"
| "words_with w ((s, v) # rest) = w @ s @ words_with v rest"
section \<open>CVProcessor: text extraction\<close>

text \<open>
  What \<open>parse_pdf\<close> reads from its surroundings is a parameter of the model: whether the
  pdfminer import succeeded and what its \<open>extract_text\<close> does on a path, what opening and
  reading a file gives, and the decoding of bytes with \<open>errors="ignore"\<close>, which never
  fails. A step that fails raises an exception, a value of \<open>exn\<close> carrying the text that
  \<open>str(e)\<close> gives; the exceptions are those deriving from \<open>Exception\<close>, which the libraries
  and the file system raise on failure. A byte is a \<open>char\<close>, which has 8 bits.
\<close>

datatype exn = Exception (message: string)

type_synonym bytes = "char list"

record env =
  HAS_PDFMINER :: bool
  pdfminer_extract_text :: "(string \<Rightarrow> exn + string option) option"
  read_file :: "string \<Rightarrow> exn + bytes"
  decode_ignore :: "bytes \<Rightarrow> string"

definition try_except :: "exn + 'a \<Rightarrow> (exn \<Rightarrow> exn + 'a) \<Rightarrow> exn + 'a" where
  \<comment> \<open>\<open>try: body except Exception as e: handler\<close>\<close>
  "try_except body handler = (case body of Inl e \<Rightarrow> handler e | Inr v \<Rightarrow> Inr v)"

definition normalize_ws :: "string \<Rightarrow> string" where
  \<comment> \<open>\<open>re.sub(r"\s+", " ", text).strip()\<close>\<close>
  "normalize_ws t = strip (sub_runs is_space t)"

function re_sub_from :: "rx \<Rightarrow> string \<Rightarrow> string \<Rightarrow> string \<Rightarrow> string" where
  \<comment> \<open>\<open>re.sub(r, repl, s)\<close> for a pattern that matches no empty string: each match, found
      left to right, is replaced and the scan resumes behind it\<close>
  "re_sub_from r repl b [] = []"
| "re_sub_from r repl b (c # cs) =
     (case rx_run r (b, c # cs) of
        e # _ \<Rightarrow>
          if length (snd e) \<le> length cs then repl @ re_sub_from r repl (fst e) (snd e)
          else c # re_sub_from r repl (c # b) cs
      | [] \<Rightarrow> c # re_sub_from r repl (c # b) cs)"
  by pat_completeness auto
termination
  by (relation "measure (\<lambda>(r, repl, b, a). length a)") auto

definition re_sub :: "rx \<Rightarrow> string \<Rightarrow> string \<Rightarrow> string" where
  "re_sub r repl s = re_sub_from r repl [] s"

fun lit :: "string \<Rightarrow> rx \<Rightarrow> rx" where
  \<comment> \<open>literal characters in front of a pattern\<close>
  "lit [] r = r"
| "lit (c # cs) r = Seq (Cls (\<lambda>x. x = c)) (lit cs r)"

definition CID_RE :: rx where
  \<comment> \<open>\<open>\(cid:\d+\)\<close>\<close>
  "CID_RE = lit ''(cid:'' (Seq (Many 1 is_digit) (Cls (\<lambda>c. c = CHR '')'')))"

definition keep_byte :: "char \<Rightarrow> bool" where
  \<comment> \<open>\<open>32 <= b <= 126 or b in (9, 10, 13) or (128 <= b <= 253)\<close>\<close>
  "keep_byte b =
     ((CHR 0x20 \<le> b \<and> b \<le> CHR 0x7E) \<or> b = CHR 0x09 \<or> b = CHR 0x0A \<or> b = CHR 0x0D
      \<or> (CHR 0x80 \<le> b \<and> b \<le> CHR 0xFD))"

definition flush :: "(bytes \<Rightarrow> string) \<Rightarrow> string list \<times> bytes \<Rightarrow> string list \<times> bytes" where
  \<comment> \<open>the local function \<open>flush\<close>, on the pair \<open>(chars, buf)\<close>\<close>
  "flush dec st =
     (case st of (chars, buf) \<Rightarrow>
        if buf \<noteq> [] then
          (let s = dec buf in if strip s \<noteq> [] then (chars @ [s], []) else (chars, []))
        else (chars, buf))"

fun scavenge_loop :: "(bytes \<Rightarrow> string) \<Rightarrow> string list \<times> bytes \<Rightarrow> bytes \<Rightarrow> string list \<times> bytes" where
  \<comment> \<open>\<open>for b in data\<close>\<close>
  "scavenge_loop dec st [] = st"
| "scavenge_loop dec st (b # bs) =
     (if keep_byte b then scavenge_loop dec (fst st, snd st @ [b]) bs
      else scavenge_loop dec (flush dec st) bs)"

definition scavenge :: "(bytes \<Rightarrow> string) \<Rightarrow> bytes \<Rightarrow> string" where
  \<comment> \<open>the crude fallback, from \<open>chars, buf = [], []\<close> to the last \<open>strip\<close>\<close>
  "scavenge dec data =
     (let chars = fst (flush dec (scavenge_loop dec ([], []) data));
          text = join '' '' chars;
          text = re_sub CID_RE '' '' text
      in normalize_ws text)"

definition PDF_MAGIC :: bytes where
  "PDF_MAGIC = ''%PDF''"

definition parse_pdf_body :: "env \<Rightarrow> string \<Rightarrow> exn + string" where
  \<comment> \<open>the body of the \<open>try\<close>\<close>
  "parse_pdf_body ev pdf_path =
     (case (if HAS_PDFMINER ev then pdfminer_extract_text ev else None) of
        Some extract \<Rightarrow>
          (case extract pdf_path of
             Inl e \<Rightarrow> Inl e
           | Inr r \<Rightarrow> Inr (normalize_ws (case r of None \<Rightarrow> [] | Some t \<Rightarrow> t)))
      | None \<Rightarrow>
          (case read_file ev pdf_path of
             Inl e \<Rightarrow> Inl e
           | Inr data \<Rightarrow>
               if \<not> prefix PDF_MAGIC data then Inr (normalize_ws (decode_ignore ev data))
               else Inr (scavenge (decode_ignore ev) data)))"

definition parse_pdf :: "env \<Rightarrow> string \<Rightarrow> exn + string" where
  \<comment> \<open>\<open>except Exception as e: return f"[PARSE_ERROR] {e}"\<close>\<close>
  "parse_pdf ev pdf_path =
     try_except (parse_pdf_body ev pdf_path) (\<lambda>e. Inr (PARSE_ERROR @ '' '' @ message e))"

definition decode_ascii :: "bytes \<Rightarrow> string" where
  \<comment> \<open>the decoding on bytes that are all ASCII or invalid in UTF-8: the invalid ones go\<close>
  "decode_ascii data = filter (\<lambda>b. b < CHR 0x80) data"

section \<open>CVProcessor: the archive expander\<close>

text \<open>
  \<open>os.path\<close> as \<open>posixpath\<close>. The file system is the table of its regular files, from
  absolute normal path to content: a path names the file at its \<open>abspath\<close>. Directories
  are implied by the paths, and a destination that names a directory is outside the
  model. An archive is the list of its members, name and content, in the order of
  \<open>infolist()\<close>.
\<close>

definition path_join :: "string \<Rightarrow> string \<Rightarrow> string" where
  \<comment> \<open>\<open>os.path.join(a, b)\<close>\<close>
  "path_join a b =
     (if prefix ''/'' b then b
      else if a = [] \<or> suffix ''/'' a then a @ b
      else a @ ''/'' @ b)"

fun norm_comps :: "bool \<Rightarrow> string list \<Rightarrow> string list \<Rightarrow> string list" where
  \<comment> \<open>the loop of \<open>normpath\<close> over the components; the second argument is \<open>new_comps\<close>\<close>
  "norm_comps initial_slashes new_comps [] = new_comps"
| "norm_comps initial_slashes new_comps (part # comps) =
     (if part = [] \<or> part = ''.'' then norm_comps initial_slashes new_comps comps
      else if part \<noteq> ''..'' \<or> (\<not> initial_slashes \<and> new_comps = [])
              \<or> (new_comps \<noteq> [] \<and> last new_comps = ''..'')
        then norm_comps initial_slashes (new_comps @ [part]) comps
      else if new_comps \<noteq> [] then norm_comps initial_slashes (butlast new_comps) comps
      else norm_comps initial_slashes new_comps comps)"

definition normpath :: "string \<Rightarrow> string" where
  \<comment> \<open>\<open>os.path.normpath(path)\<close>\<close>
  "normpath path =
     (if path = [] then ''.''
      else
        let initial_slashes =
              (if prefix ''/'' path
               then (if prefix ''//'' path \<and> \<not> prefix ''///'' path then 2 else 1)
               else (0::nat));
            comps = norm_comps (initial_slashes \<noteq> 0) [] (split_sep ''/'' path);
            path = replicate initial_slashes CHR ''/'' @ join ''/'' comps
        in if path = [] then ''.'' else path)"

definition abspath :: "string \<Rightarrow> string \<Rightarrow> string" where
  \<comment> \<open>\<open>os.path.abspath(path)\<close>, the first argument being the working directory\<close>
  "abspath cwd path = normpath (if prefix ''/'' path then path else path_join cwd path)"

type_synonym files = "string pydict"

definition fs_remove :: "files \<Rightarrow> string \<Rightarrow> files" where
  "fs_remove fs p = filter (\<lambda>f. fst f \<noteq> p) fs"

definition zip_extract :: "string \<Rightarrow> string \<Rightarrow> string \<times> string \<Rightarrow> files \<Rightarrow> files" where
  \<comment> \<open>\<open>z.extract(m, path)\<close>: the member's name loses its empty, \<open>.\<close> and \<open>..\<close> components
      and the file is written under \<open>path\<close>, over a file already there\<close>
  "zip_extract cwd path m fs =
     (let arcname = join ''/''
            (filter (\<lambda>x. x \<noteq> [] \<and> x \<noteq> ''.'' \<and> x \<noteq> ''..'') (split_sep ''/'' (fst m)));
          targetpath = normpath (path_join path arcname)
      in dict_set fs (abspath cwd targetpath) (snd m))"

definition shutil_move :: "string \<Rightarrow> files \<Rightarrow> string \<Rightarrow> string \<Rightarrow> exn + files" where
  \<comment> \<open>\<open>shutil.move(src, dst)\<close> of a file: \<open>os.rename\<close> puts it in the place of a file
      already there; without the source file it raises\<close>
  "shutil_move cwd fs src dst =
     (case dict_get fs (abspath cwd src) of
        None \<Rightarrow> Inl (Exception ''No such file or directory'')
      | Some content \<Rightarrow>
          Inr (dict_set (fs_remove fs (abspath cwd src)) (abspath cwd dst) content))"

definition is_pdf_member :: "string \<times> string \<Rightarrow> bool" where
  \<comment> \<open>\<open>m.filename.lower().endswith('.pdf')\<close>\<close>
  "is_pdf_member m = suffix ''.pdf'' (lower (fst m))"

definition member_dest :: "string \<Rightarrow> string \<times> string \<Rightarrow> string" where
  "member_dest cache_dir m = path_join cache_dir (basename (fst m))"

definition member_src :: "string \<Rightarrow> string \<times> string \<Rightarrow> string" where
  "member_src cache_dir m = path_join cache_dir (fst m)"

definition unzip_member ::
  "string \<Rightarrow> string \<Rightarrow> string list \<times> files \<Rightarrow> string \<times> string \<Rightarrow> string list \<times> files" where
  \<comment> \<open>one round of \<open>for m in z.infolist()\<close>, on the pair of \<open>out\<close> and the file system\<close>
  "unzip_member cwd cache_dir st m =
     (case st of (out, fs) \<Rightarrow>
        if is_pdf_member m then
          (let dest = member_dest cache_dir m;
               fs1 = zip_extract cwd cache_dir m fs;
               src = member_src cache_dir m
           in case (if abspath cwd src \<noteq> abspath cwd dest then shutil_move cwd fs1 src dest
                    else Inr fs1) of
                Inr fs2 \<Rightarrow> (out @ [dest], fs2)
              | Inl e \<Rightarrow> (out @ [src], fs1))
        else (out, fs))"

definition unzip_pdfs ::
  "string \<Rightarrow> string \<Rightarrow> (string \<times> string) list \<Rightarrow> files \<Rightarrow> string list \<times> files" where
  "unzip_pdfs cwd cache_dir members fs = foldl (unzip_member cwd cache_dir) ([], fs) members"

section \<open>Properties of the string primitives\<close>

lemma lower_append: "lower (xs @ ys) = lower xs @ lower ys"
  by (simp add: lower_def)

lemma lower_PARSE_ERROR: "lower PARSE_ERROR = ''[parse_error]''"
  by (simp add: lower_def lower_char_def is_upper_def PARSE_ERROR_def)

lemma marker_prefix_lower:
  assumes "prefix PARSE_ERROR text"
  shows "prefix ''[parse_error]'' (lower text)"
proof -
  from assms obtain rest where "text = PARSE_ERROR @ rest"
    by (auto simp: prefix_def)
  then have "lower text = ''[parse_error]'' @ lower rest"
    by (simp add: lower_append lower_PARSE_ERROR)
  then show ?thesis
    by (metis prefixI)
qed

text \<open>\<open>str.count\<close> is positive exactly when the string occurs as a substring.\<close>

lemma count_from_pos_iff:
  "sub \<noteq> [] \<Longrightarrow> (0 < count_from sub t) = sublist sub t"
proof (induction sub t rule: count_from.induct)
  case (1 sub)
  then show ?case by simp
next
  case (2 sub c cs)
  show ?case
  proof (cases "prefix sub (c # cs)")
    case True
    then show ?thesis by simp
  next
    case False
    with 2 show ?thesis by (simp add: sublist_Cons_right)
  qed
qed

lemma str_count_pos_iff: "(0 < str_count sub t) = sublist sub t"
  by (simp add: str_count_def count_from_pos_iff)

text \<open>Rules for evaluating the string functions on literals.\<close>

lemmas str_eval = lower_def lower_char_def is_upper_def is_lower_def is_alpha_def is_digit_def
  is_space_def str_count_def

section \<open>Properties of dictionaries\<close>

lemma dict_set_keys:
  "map fst (dict_set d k v) = (if k \<in> set (map fst d) then map fst d else map fst d @ [k])"
proof (induction d)
  case Nil
  then show ?case by simp
next
  case (Cons p d)
  then show ?case by (cases p) force
qed

lemma dict_set_distinct:
  "distinct (map fst d) \<Longrightarrow> distinct (map fst (dict_set d k v))"
  by (simp add: dict_set_keys)

lemma dict_set_map_of: "map_of (dict_set d k v) = (map_of d)(k \<mapsto> v)"
  by (induction d) auto

lemma dict_set_fresh: "k \<notin> set (map fst d) \<Longrightarrow> dict_set d k v = d @ [(k, v)]"
  by (induction d) auto

lemma foldl_dict_set_distinct:
  "distinct (map fst d) \<Longrightarrow>
   distinct (map fst (foldl (\<lambda>d (k, v). dict_set d (f k) v) d kws))"
  by (induction kws arbitrary: d) (auto simp: dict_set_distinct)

section \<open>Ranker\<close>

lemma Ranker_init_distinct: "distinct (map fst (keywords_of (Ranker_init kws r)))"
  by (simp add: Ranker_init_def foldl_dict_set_distinct)

lemma diversity_remdups:
  "diversity t = min (real (length (remdups (findall_alpha3 t))) / 500) 5"
  by (simp add: diversity_def card_set)

lemmas rank_eval = score_def Ranker_init_def kw_step_def diversity_remdups findall_alpha3_def
  dict_get_def dict_keys_def role_bonus_def contribution_def

subsection \<open>The error marker\<close>

text \<open>
  Claim C2. For every keyword profile (any keywords, weights and role) and every text
  that begins with the error marker \<open>[PARSE_ERROR]\<close>, \<open>Ranker.score\<close> returns the score
  0 and an empty matched mapping: nothing is added for keywords, role or diversity.
\<close>

theorem score_parse_error:
  "prefix PARSE_ERROR text \<Longrightarrow> score (Ranker_init kws r) text = (0, [])"
  by (simp add: score_def marker_prefix_lower)

theorem score_parse_error_witness:
  "prefix PARSE_ERROR ''[PARSE_ERROR] boom''
   \<and> score (Ranker_init [(''python'', 2), (''sql'', 1)] ''engineer'') ''[PARSE_ERROR] boom'' = (0, [])"
  using score_parse_error [of "''[PARSE_ERROR] boom''" "[(''python'', 2), (''sql'', 1)]" "''engineer''"]
  by (simp add: PARSE_ERROR_def)

subsection \<open>The loop over the keywords\<close>

lemma kw_loop_total:
  "fst (foldl (kw_step t) (tot, m) d) = tot + sum_list (map (contribution t) d)"
  by (induction d arbitrary: tot m) (auto simp: kw_step_def contribution_def Let_def)

lemma kw_loop_matched:
  "distinct (map fst d) \<Longrightarrow> set (map fst m) \<inter> set (map fst d) = {} \<Longrightarrow>
   snd (foldl (kw_step t) (tot, m) d) = m @ map (\<lambda>kw. (fst kw, contribution t kw)) (hits t d)"
proof (induction d arbitrary: tot m)
  case Nil
  then show ?case by (simp add: hits_def)
next
  case (Cons kw d)
  obtain k w where kw: "kw = (k, w)" by (cases kw)
  show ?case
  proof (cases "str_count k t = 0")
    case True
    with Cons kw show ?thesis by (simp add: kw_step_def hits_def)
  next
    case False
    from Cons.prems kw have fresh: "k \<notin> set (map fst m)" by auto
    have step: "kw_step t (tot, m) (k, w) = (tot + real (str_count k t) * w, m @ [(k, real (str_count k t) * w)])"
      using False fresh kw by (simp add: kw_step_def dict_set_fresh Let_def)
    have "set (map fst (m @ [(k, real (str_count k t) * w)])) \<inter> set (map fst d) = {}"
      using Cons.prems kw by auto
    moreover have "distinct (map fst d)"
      using Cons.prems by simp
    ultimately have "snd (foldl (kw_step t) (tot + real (str_count k t) * w, m @ [(k, real (str_count k t) * w)]) d)
        = (m @ [(k, real (str_count k t) * w)]) @ map (\<lambda>kw. (fst kw, contribution t kw)) (hits t d)"
      by (rule Cons.IH [rotated])
    then show ?thesis
      using False kw by (simp add: step hits_def contribution_def)
  qed
qed

lemma score_unfold:
  "\<not> prefix ''[parse_error]'' (lower text) \<Longrightarrow>
   score r text =
     (fst (foldl (kw_step (lower text)) (0, []) (keywords_of r))
        + role_bonus r (lower text) + diversity (lower text),
      snd (foldl (kw_step (lower text)) (0, []) (keywords_of r)))"
  by (simp add: score_def role_bonus_def Let_def split: prod.splits)

lemma score_matched:
  assumes "\<not> prefix ''[parse_error]'' (lower text)" and "distinct (map fst (keywords_of r))"
  shows "snd (score r text) =
     map (\<lambda>kw. (fst kw, contribution (lower text) kw)) (hits (lower text) (keywords_of r))"
  using assms by (simp add: score_unfold kw_loop_matched)

lemma sum_hits: "sum_list (map (contribution t) (hits t d)) = sum_list (map (contribution t) d)"
  by (induction d) (auto simp: hits_def contribution_def)

lemma score_total:
  assumes "\<not> prefix ''[parse_error]'' (lower text)"
  shows "fst (score r text) =
     sum_list (map (contribution (lower text)) (keywords_of r))
       + role_bonus r (lower text) + diversity (lower text)"
  using assms by (simp add: score_unfold kw_loop_total)

lemma map_of_hits:
  assumes "distinct (map fst d)" and "(k, w) \<in> set d"
  shows "map_of (map (\<lambda>kw. (fst kw, contribution t kw)) (hits t d)) k =
     (if 0 < str_count k t then Some (real (str_count k t) * w) else None)"
  using assms
proof (induction d)
  case Nil
  then show ?case by simp
next
  case (Cons p d)
  obtain k' w' where p: "p = (k', w')" by (cases p)
  show ?case
  proof (cases "k' = k")
    case True
    with Cons.prems p have "w' = w" by (auto simp: image_iff)
    moreover have "map_of (map (\<lambda>kw. (fst kw, contribution t kw)) (hits t d)) k = None"
      using Cons.prems p True by (auto simp: map_of_eq_None_iff hits_def image_iff)
    ultimately show ?thesis using p True by (simp add: hits_def contribution_def)
  next
    case False
    with Cons p show ?thesis by (auto simp: hits_def)
  qed
qed

lemma map_of_hits_absent:
  "k \<notin> set (map fst d) \<Longrightarrow> map_of (map (\<lambda>kw. (fst kw, contribution t kw)) (hits t d)) k = None"
  by (auto simp: map_of_eq_None_iff hits_def image_iff)

lemma hits_empty:
  "\<forall>k \<in> set (map fst d). \<not> sublist k t \<Longrightarrow> hits t d = []"
  by (auto simp: hits_def filter_empty_conv str_count_pos_iff)

lemma contribution_none:
  "\<forall>k \<in> set (map fst d). \<not> sublist k t \<Longrightarrow> sum_list (map (contribution t) d) = 0"
proof -
  assume a: "\<forall>k \<in> set (map fst d). \<not> sublist k t"
  have "sum_list (map (contribution t) d) = sum_list (map (contribution t) (hits t d))"
    by (simp add: sum_hits)
  also have "\<dots> = 0" using a by (simp add: hits_empty)
  finally show ?thesis .
qed

lemma no_hits_matched_empty:
  assumes "\<forall>k \<in> set (dict_keys (keywords_of r)). \<not> sublist k (lower text)"
  shows "snd (score r text) = []"
proof (cases "prefix ''[parse_error]'' (lower text)")
  case True
  then show ?thesis by (simp add: score_def)
next
  case False
  have "foldl (kw_step (lower text)) (tot, m) d = (tot, m)"
    if "\<forall>k \<in> set (map fst d). \<not> sublist k (lower text)" for tot m d
    using that
  proof (induction d)
    case Nil
    then show ?case by simp
  next
    case (Cons p d)
    then have "str_count (fst p) (lower text) = 0"
      using str_count_pos_iff [of "fst p" "lower text"] by simp
    with Cons show ?case by (cases p) (simp add: kw_step_def)
  qed
  with assms False show ?thesis
    by (simp add: score_unfold dict_keys_def)
qed

text \<open>
  Claim C1, amended. \<open>Ranker.score\<close> lowercases the text; for every text that does not
  begin, once lowercased, with the lowercased error marker, and for each keyword \<open>k\<close> of
  the profile with weight \<open>w\<close>, with \<open>cnt\<close> the number of non-overlapping occurrences
  of \<open>k\<close> in the lowercased text: \<open>k\<close> is a key of the matched map if and only if
  \<open>cnt > 0\<close>, and then \<open>matched[k] = cnt * w\<close>; no other key is in the map; and the
  score is the sum of the matched contributions plus the role bonus and the diversity
  bonus. For every text at all, when no keyword of the profile occurs as a substring of
  the lowercased text, the matched map is empty and the keywords contribute 0.
\<close>

theorem score_keywords:
  "(\<not> prefix ''[parse_error]'' (lower text) \<longrightarrow>
      (\<forall>k w. (k, w) \<in> set (keywords_of (Ranker_init kws rl)) \<longrightarrow>
         dict_get (snd (score (Ranker_init kws rl) text)) k =
           (if 0 < str_count k (lower text)
            then Some (real (str_count k (lower text)) * w) else None))
    \<and> (\<forall>k. k \<notin> set (dict_keys (keywords_of (Ranker_init kws rl))) \<longrightarrow>
         dict_get (snd (score (Ranker_init kws rl) text)) k = None)
    \<and> fst (score (Ranker_init kws rl) text) =
         sum_list (map snd (snd (score (Ranker_init kws rl) text)))
           + role_bonus (Ranker_init kws rl) (lower text) + diversity (lower text))
   \<and> ((\<forall>k \<in> set (dict_keys (keywords_of (Ranker_init kws rl))). \<not> sublist k (lower text)) \<longrightarrow>
        snd (score (Ranker_init kws rl) text) = []
        \<and> sum_list (map (contribution (lower text)) (keywords_of (Ranker_init kws rl))) = 0)"
proof -
  let ?r = "Ranker_init kws rl"
  have d: "distinct (map fst (keywords_of ?r))" by (rule Ranker_init_distinct)
  have A: "dict_get (snd (score ?r text)) k =
           (if 0 < str_count k (lower text)
            then Some (real (str_count k (lower text)) * w) else None)"
    if "\<not> prefix ''[parse_error]'' (lower text)" and "(k, w) \<in> set (keywords_of ?r)" for k w
    using that d by (simp add: dict_get_def score_matched map_of_hits)
  have B: "dict_get (snd (score ?r text)) k = None"
    if "\<not> prefix ''[parse_error]'' (lower text)" and "k \<notin> set (dict_keys (keywords_of ?r))" for k
    using that d by (simp add: dict_get_def score_matched map_of_hits_absent dict_keys_def)
  have C: "fst (score ?r text) =
         sum_list (map snd (snd (score ?r text)))
           + role_bonus ?r (lower text) + diversity (lower text)"
    if "\<not> prefix ''[parse_error]'' (lower text)"
    using that d by (simp add: score_total score_matched sum_hits o_def)
  have D: "snd (score ?r text) = []
        \<and> sum_list (map (contribution (lower text)) (keywords_of ?r)) = 0"
    if "\<forall>k \<in> set (dict_keys (keywords_of ?r)). \<not> sublist k (lower text)"
    using that by (simp add: no_hits_matched_empty contribution_none dict_keys_def)
  from A B C D show ?thesis by blast
qed

theorem score_keywords_witness:
  "\<not> prefix ''[parse_error]'' (lower ''SQL sql Python'')
   \<and> (''sql'', 3) \<in> set (keywords_of (Ranker_init [(''Python'', 2), (''sql'', 3), (''java'', 1)] ''''))
   \<and> dict_get (snd (score (Ranker_init [(''Python'', 2), (''sql'', 3), (''java'', 1)] '''') ''SQL sql Python'')) ''sql''
       = (if 0 < str_count ''sql'' (lower ''SQL sql Python'')
            then Some (real (str_count ''sql'' (lower ''SQL sql Python'')) * 3) else None)
   \<and> str_count ''sql'' (lower ''SQL sql Python'') = 2
   \<and> dict_keys (keywords_of (Ranker_init [(''rust'', 2)] '''')) = [''rust'']
   \<and> \<not> sublist ''rust'' (lower ''SQL sql Python'')
   \<and> snd (score (Ranker_init [(''rust'', 2)] '''') ''SQL sql Python'') = []"
proof -
  have h: "\<not> prefix ''[parse_error]'' (lower ''SQL sql Python'')"
    by (simp add: str_eval)
  have m: "(''sql'', 3) \<in> set (keywords_of (Ranker_init [(''Python'', 2), (''sql'', 3), (''java'', 1)] ''''))"
    by (simp add: str_eval rank_eval)
  have c: "str_count ''sql'' (lower ''SQL sql Python'') = 2"
    by (simp add: str_eval)
  have "str_count ''rust'' (lower ''SQL sql Python'') = 0"
    by (simp add: str_eval)
  then have ns: "\<not> sublist ''rust'' (lower ''SQL sql Python'')"
    using str_count_pos_iff [of "''rust''" "lower ''SQL sql Python''"] by simp
  have ks: "dict_keys (keywords_of (Ranker_init [(''rust'', 2)] '''')) = [''rust'']"
    by (simp add: Ranker_init_def dict_keys_def lower_def lower_char_def is_upper_def)
  from ns ks have n: "\<forall>k \<in> set (dict_keys (keywords_of (Ranker_init [(''rust'', 2)] ''''))). \<not> sublist k (lower ''SQL sql Python'')"
    by simp
  from score_keywords [of "''SQL sql Python''" "[(''Python'', 2), (''sql'', 3), (''java'', 1)]" "''''"]
    score_keywords [of "''SQL sql Python''" "[(''rust'', 2)]" "''''"]
  show ?thesis using h m c n ns ks by blast
qed

text \<open>
  The restriction to texts without the marker is needed: on \<open>[PARSE_ERROR] python\<close> the
  keyword \<open>python\<close> occurs once in the lowercased text and is not a key of the matched
  map, since \<open>score\<close> returns before its loop.
\<close>

theorem score_keywords_counterexample:
  "(''python'', 1) \<in> set (keywords_of (Ranker_init [(''python'', 1)] ''''))
   \<and> 0 < str_count ''python'' (lower ''[PARSE_ERROR] python'')
   \<and> dict_get (snd (score (Ranker_init [(''python'', 1)] '''') ''[PARSE_ERROR] python'')) ''python'' = None"
  by (simp add: str_eval rank_eval)

subsection \<open>Monotonicity in the weights\<close>

lemma dict_set_weight_le:
  "list_all2 weight_le d d' \<Longrightarrow> v \<le> v' \<Longrightarrow>
   list_all2 weight_le (dict_set d k v) (dict_set d' k v')"
proof (induction d d' rule: list_all2_induct)
  case Nil
  then show ?case by (simp add: weight_le_def)
next
  case (Cons p d q d')
  then show ?case by (cases p; cases q) (auto simp: weight_le_def)
qed

lemma foldl_dict_set_weight_le:
  "list_all2 weight_le kws kws' \<Longrightarrow> list_all2 weight_le d d' \<Longrightarrow>
   list_all2 weight_le (foldl (\<lambda>d (k, v). dict_set d (lower k) v) d kws)
                       (foldl (\<lambda>d (k, v). dict_set d (lower k) v) d' kws')"
proof (induction kws kws' arbitrary: d d' rule: list_all2_induct)
  case Nil
  then show ?case by simp
next
  case (Cons p kws q kws')
  obtain k v where p: "p = (k, v)" by (cases p)
  obtain k' v' where q: "q = (k', v')" by (cases q)
  from Cons.hyps p q have kv: "k' = k" "v \<le> v'" by (simp_all add: weight_le_def)
  have "list_all2 weight_le (dict_set d (lower k) v) (dict_set d' (lower k) v')"
    using Cons.prems kv by (simp add: dict_set_weight_le)
  then show ?case using Cons.IH p q kv by simp
qed

lemma contribution_weight_le:
  "list_all2 weight_le d d' \<Longrightarrow>
   sum_list (map (contribution t) d) \<le> sum_list (map (contribution t) d')"
proof (induction d d' rule: list_all2_induct)
  case Nil
  then show ?case by simp
next
  case (Cons p d q d')
  from Cons.hyps have "contribution t p \<le> contribution t q"
    by (simp add: weight_le_def contribution_def mult_left_mono)
  with Cons.IH show ?case by simp
qed

lemma score_weight_le:
  assumes "list_all2 weight_le kws kws'"
  shows "fst (score (Ranker_init kws rl) text) \<le> fst (score (Ranker_init kws' rl) text)"
proof (cases "prefix ''[parse_error]'' (lower text)")
  case True
  then show ?thesis by (simp add: score_def)
next
  case False
  have "list_all2 weight_le (keywords_of (Ranker_init kws rl)) (keywords_of (Ranker_init kws' rl))"
    using assms by (simp add: Ranker_init_def foldl_dict_set_weight_le)
  then have "sum_list (map (contribution (lower text)) (keywords_of (Ranker_init kws rl)))
      \<le> sum_list (map (contribution (lower text)) (keywords_of (Ranker_init kws' rl)))"
    by (rule contribution_weight_le)
  moreover have "role_bonus (Ranker_init kws rl) (lower text) = role_bonus (Ranker_init kws' rl) (lower text)"
    by (simp add: role_bonus_def Ranker_init_def)
  ultimately show ?thesis using False by (simp add: score_total)
qed

text \<open>
  Claim C6. For every text and every keyword profile, raising the weight of one keyword,
  with the text, the other weights and the role unchanged, never lowers the score that
  \<open>Ranker.score\<close> returns.
\<close>

theorem score_weight_monotone:
  "w \<le> w' \<Longrightarrow>
   fst (score (Ranker_init (xs @ (k, w) # ys) rl) text)
     \<le> fst (score (Ranker_init (xs @ (k, w') # ys) rl) text)"
proof -
  assume le: "w \<le> w'"
  have refl: "list_all2 weight_le zs zs" for zs
    by (simp add: list_all2_same weight_le_def)
  have "list_all2 weight_le (xs @ (k, w) # ys) (xs @ (k, w') # ys)"
    using le refl by (simp add: list_all2_appendI weight_le_def)
  then show ?thesis by (rule score_weight_le)
qed

theorem score_weight_monotone_witness:
  "(2::real) \<le> 3
   \<and> fst (score (Ranker_init ([(''python'', 2)] @ (''sql'', 2) # [(''java'', 1)]) ''dev'') ''SQL sql Python dev'')
     \<le> fst (score (Ranker_init ([(''python'', 2)] @ (''sql'', 3) # [(''java'', 1)]) ''dev'') ''SQL sql Python dev'')
   \<and> fst (score (Ranker_init ([(''python'', 2)] @ (''sql'', 2) # [(''java'', 1)]) ''dev'') ''SQL sql Python dev'') = 8 + 3 / 500
   \<and> fst (score (Ranker_init ([(''python'', 2)] @ (''sql'', 3) # [(''java'', 1)]) ''dev'') ''SQL sql Python dev'') = 10 + 3 / 500"
proof -
  have h: "(2::real) \<le> 3" by simp
  have a: "fst (score (Ranker_init ([(''python'', 2)] @ (''sql'', 2) # [(''java'', 1)]) ''dev'') ''SQL sql Python dev'') = 8 + 3 / 500"
    by (simp add: str_eval rank_eval)
  have b: "fst (score (Ranker_init ([(''python'', 2)] @ (''sql'', 3) # [(''java'', 1)]) ''dev'') ''SQL sql Python dev'') = 10 + 3 / 500"
    by (simp add: str_eval rank_eval)
  from score_weight_monotone [OF h, of "[(''python'', 2)]" "''sql''" "[(''java'', 1)]" "''dev''" "''SQL sql Python dev''"]
  show ?thesis using h a b by blast
qed

subsection \<open>The empty role\<close>

text \<open>
  Claim C10, amended. A Ranker built with the empty role string adds no role bonus for any
  text, although the empty string is counted \<open>len(text) + 1\<close> times by \<open>str.count\<close>:
  for every text that does not begin, once lowercased, with the lowercased error marker,
  the score is exactly the sum of the keyword contributions plus the capped diversity
  bonus; for a text that does, the score is 0.
\<close>

theorem empty_role_no_bonus:
  "role (Ranker_init kws '''') = []
   \<and> role_bonus (Ranker_init kws '''') (lower text) = 0
   \<and> 2 * real (str_count '''' (lower text)) = 2 * (real (length text) + 1)
   \<and> (\<not> prefix ''[parse_error]'' (lower text) \<longrightarrow>
        fst (score (Ranker_init kws '''') text) =
          sum_list (map (contribution (lower text)) (keywords_of (Ranker_init kws ''''))) + diversity (lower text))
   \<and> (prefix ''[parse_error]'' (lower text) \<longrightarrow> fst (score (Ranker_init kws '''') text) = 0)"
proof -
  have r: "role (Ranker_init kws '''') = []"
    by (simp add: Ranker_init_def lower_def)
  then have b: "role_bonus (Ranker_init kws '''') (lower text) = 0"
    by (simp add: role_bonus_def)
  have c: "2 * real (str_count '''' (lower text)) = 2 * (real (length text) + 1)"
    by (simp add: str_count_def lower_def)
  have s: "fst (score (Ranker_init kws '''') text) =
          sum_list (map (contribution (lower text)) (keywords_of (Ranker_init kws ''''))) + diversity (lower text)"
    if "\<not> prefix ''[parse_error]'' (lower text)"
    using that b by (simp add: score_total)
  have z: "fst (score (Ranker_init kws '''') text) = 0" if "prefix ''[parse_error]'' (lower text)"
    using that by (simp add: score_def)
  from r b c s z show ?thesis by blast
qed

theorem empty_role_no_bonus_witness:
  "\<not> prefix ''[parse_error]'' (lower ''Python dev'')
   \<and> fst (score (Ranker_init [(''python'', 2)] '''') ''Python dev'') =
          sum_list (map (contribution (lower ''Python dev'')) (keywords_of (Ranker_init [(''python'', 2)] ''''))) + diversity (lower ''Python dev'')
   \<and> fst (score (Ranker_init [(''python'', 2)] '''') ''Python dev'') = 2 + 2 / 500
   \<and> prefix ''[parse_error]'' (lower ''[Parse_Error] x'')
   \<and> fst (score (Ranker_init [(''python'', 2)] '''') ''[Parse_Error] x'') = 0"
proof -
  have h: "\<not> prefix ''[parse_error]'' (lower ''Python dev'')"
    by (simp add: str_eval)
  have h2: "prefix ''[parse_error]'' (lower ''[Parse_Error] x'')"
    by (simp add: str_eval)
  have v: "fst (score (Ranker_init [(''python'', 2)] '''') ''Python dev'') = 2 + 2 / 500"
    by (simp add: str_eval rank_eval)
  from empty_role_no_bonus [of "[(''python'', 2)]" "''Python dev''"]
    empty_role_no_bonus [of "[(''python'', 2)]" "''[Parse_Error] x''"]
  show ?thesis using h h2 v by blast
qed

text \<open>
  On a text with the marker the score is not that sum: \<open>[PARSE_ERROR] boom\<close> scores 0,
  while its three distinct tokens would give a diversity bonus of 3/500.
\<close>

theorem empty_role_counterexample:
  "fst (score (Ranker_init [] '''') ''[PARSE_ERROR] boom'') = 0
   \<and> sum_list (map (contribution (lower ''[PARSE_ERROR] boom'')) (keywords_of (Ranker_init [] '''')))
        + diversity (lower ''[PARSE_ERROR] boom'') = 3 / 500"
  by (simp add: str_eval rank_eval)

section \<open>The ranking pass: order and frame\<close>

subsection \<open>Floats\<close>

lemma fle_trans: "fle a b \<Longrightarrow> fle b c \<Longrightarrow> fle a c"
  by (cases a; cases b; cases c) auto

lemma fle_total: "a \<noteq> NaN \<Longrightarrow> b \<noteq> NaN \<Longrightarrow> fle a b \<or> fle b a"
  by (cases a; cases b) auto

lemma not_flt_iff: "a \<noteq> NaN \<Longrightarrow> b \<noteq> NaN \<Longrightarrow> (\<not> flt a b) = fle b a"
  by (cases a; cases b) auto

lemma fle_not_flt: "fle b a \<Longrightarrow> \<not> flt a b"
  by (cases a; cases b) auto

lemma fle_numbers: "fle a b \<Longrightarrow> a \<noteq> NaN \<and> b \<noteq> NaN"
  by (cases a; cases b) auto


lemma fadd_NaN: "(fadd a b = NaN) = (a = NaN \<or> b = NaN)"
  by (cases a; cases b) auto

lemma fmul_NaN: "(fmul a b = NaN) = (a = NaN \<or> b = NaN)"
  by (cases a; cases b) auto

subsection \<open>The scores of a profile of numbers\<close>

lemma dict_set_as_floats: "dict_set (as_floats d) k (Fin v) = as_floats (dict_set d k v)"
  by (induction d) (auto simp: as_floats_def)

lemma foldl_dict_set_as_floats:
  "foldl (\<lambda>d (k, v). dict_set d (lower k) v) (as_floats d0) (as_floats kws)
     = as_floats (foldl (\<lambda>d (k, v). dict_set d (lower k) v) d0 kws)"
proof (induction kws arbitrary: d0)
  case Nil
  then show ?case by (simp add: as_floats_def)
next
  case (Cons kw kws)
  obtain k v where kw: "kw = (k, v)" by (cases kw)
  have "as_floats (kw # kws) = (k, Fin v) # as_floats kws"
    by (simp add: as_floats_def kw)
  then show ?case using Cons.IH [of "dict_set d0 (lower k) v"]
    by (simp add: kw dict_set_as_floats)
qed

lemma Ranker_init_f_numbers:
  "keywords_f (Ranker_init_f (as_floats kws) job) = as_floats (keywords_of (Ranker_init kws job))"
  "role_f (Ranker_init_f (as_floats kws) job) = role (Ranker_init kws job)"
  using foldl_dict_set_as_floats [of "[]" kws]
  by (simp_all add: Ranker_init_f_def Ranker_init_def as_floats_def)

lemma kw_step_f_numbers:
  "kw_step_f t (Fin tot, as_floats m) (k, Fin w)
     = (case kw_step t (tot, m) (k, w) of (tot', m') \<Rightarrow> (Fin tot', as_floats m'))"
  by (simp add: kw_step_f_def kw_step_def Let_def dict_set_as_floats)

lemma kw_loop_f_numbers:
  "foldl (kw_step_f t) (Fin tot, as_floats m) (as_floats d)
     = (case foldl (kw_step t) (tot, m) d of (tot', m') \<Rightarrow> (Fin tot', as_floats m'))"
proof (induction d arbitrary: tot m)
  case Nil
  then show ?case by (simp add: as_floats_def)
next
  case (Cons kw d)
  obtain k w where kw: "kw = (k, w)" by (cases kw)
  obtain tot1 m1 where st: "kw_step t (tot, m) (k, w) = (tot1, m1)"
    by (cases "kw_step t (tot, m) (k, w)")
  have "as_floats (kw # d) = (k, Fin w) # as_floats d"
    by (simp add: as_floats_def kw)
  then show ?case using Cons.IH [of tot1 m1]
    by (simp add: kw kw_step_f_numbers st)
qed

text \<open>On a profile of numbers the float \<open>Ranker\<close> computes what \<open>score\<close> does.\<close>

lemma score_f_numbers:
  "score_f (Ranker_init_f (as_floats kws) job) text
     = (case score (Ranker_init kws job) text of (s, m) \<Rightarrow> (Fin s, as_floats m))"
proof -
  let ?t = "lower text"
  let ?d = "keywords_of (Ranker_init kws job)"
  obtain tot m where l: "foldl (kw_step ?t) (0, []) ?d = (tot, m)"
    by (cases "foldl (kw_step ?t) (0, []) ?d")
  have n: "as_floats [] = ([] :: pyfloat pydict)" by (simp add: as_floats_def)
  have "foldl (kw_step_f ?t) (Fin 0, as_floats []) (as_floats ?d) = (Fin tot, as_floats m)"
    by (simp only: kw_loop_f_numbers l prod.case)
  then have f: "foldl (kw_step_f ?t) (Fin 0, []) (as_floats ?d) = (Fin tot, as_floats m)"
    by (simp only: n)
  show ?thesis
    by (simp add: score_f_def score_def Ranker_init_f_numbers l f Let_def n)
qed

lemma score_f_numbers_not_NaN:
  "fst (score_f (Ranker_init_f (as_floats kws) job) text) \<noteq> NaN"
  by (simp add: score_f_numbers split: prod.splits)

lemmas rank_f_eval = score_f_def Ranker_init_f_def kw_step_f_def diversity_remdups
  findall_alpha3_def

subsection \<open>The sort\<close>

lemma mset_insort_desc: "mset (insort_desc key x ys) = add_mset x (mset ys)"
  by (induction ys) auto

lemma mset_foldr_insort_desc: "mset (foldr (insort_desc key) xs []) = mset xs"
  by (induction xs) (auto simp: mset_insort_desc)

lemma mset_sort_desc:
  "\<forall>xs. mset (unordered xs) = mset xs \<Longrightarrow> mset (sort_desc unordered key xs) = mset xs"
  by (simp add: sort_desc_def mset_foldr_insort_desc)

lemma set_insort_desc: "set (insort_desc key x ys) = insert x (set ys)"
  by (induction ys) auto

lemma set_foldr_insort_desc: "set (foldr (insort_desc key) xs []) = set xs"
  by (induction xs) (auto simp: set_insort_desc)

lemma sorted_insort_desc:
  assumes "key x \<noteq> NaN" and "\<forall>y \<in> set ys. key y \<noteq> NaN"
    and "sorted_wrt (\<lambda>a b. fle (key b) (key a)) ys"
  shows "sorted_wrt (\<lambda>a b. fle (key b) (key a)) (insort_desc key x ys)"
  using assms
proof (induction ys)
  case Nil
  then show ?case by simp
next
  case (Cons y ys)
  show ?case
  proof (cases "fle (key y) (key x)")
    case True
    then have "\<forall>z \<in> set ys. fle (key z) (key x)"
      using Cons.prems(3) by (auto intro: fle_trans)
    with True Cons.prems(3) show ?thesis by simp
  next
    case False
    then have "fle (key x) (key y)"
      using fle_total [of "key x" "key y"] Cons.prems(1,2) by simp
    moreover have "sorted_wrt (\<lambda>a b. fle (key b) (key a)) (insort_desc key x ys)"
      using Cons by simp
    ultimately show ?thesis using False Cons.prems(3) by (simp add: set_insort_desc)
  qed
qed

lemma sorted_foldr_insort_desc:
  "\<forall>x \<in> set xs. key x \<noteq> NaN \<Longrightarrow>
   sorted_wrt (\<lambda>a b. fle (key b) (key a)) (foldr (insort_desc key) xs [])"
proof (induction xs)
  case Nil
  then show ?case by simp
next
  case (Cons x xs)
  then show ?case
    by (simp add: sorted_insort_desc set_foldr_insort_desc)
qed



lemma insort_desc_head:
  "\<forall>y \<in> set ys. fle (key y) (key x) \<Longrightarrow> insort_desc key x ys = x # ys"
  by (cases ys) auto

lemma foldr_insort_desc_sorted_id:
  "sorted_wrt (\<lambda>a b. fle (key b) (key a)) xs \<Longrightarrow> foldr (insort_desc key) xs [] = xs"
proof (induction xs)
  case Nil
  then show ?case by simp
next
  case (Cons x xs)
  then have "foldr (insort_desc key) xs [] = xs" by simp
  moreover have "\<forall>y \<in> set xs. fle (key y) (key x)" using Cons.prems by simp
  ultimately show ?case by (simp add: insort_desc_head)
qed

text \<open>With keys that are numbers, a single run is a sorted list, and conversely.\<close>

lemma one_run_sorted:
  "\<forall>x \<in> set xs. key x \<noteq> NaN \<Longrightarrow> one_run key xs \<Longrightarrow>
   sorted_wrt (\<lambda>a b. fle (key b) (key a)) xs"
proof (induction key xs rule: one_run.induct)
  case (3 key x y ys)
  then have s: "sorted_wrt (\<lambda>a b. fle (key b) (key a)) (y # ys)" by simp
  from 3 have xy: "fle (key y) (key x)" by (simp add: not_flt_iff)
  then have "\<forall>z \<in> set ys. fle (key z) (key x)"
    using s by (auto intro: fle_trans)
  with xy s show ?case by simp
qed simp_all

lemma sorted_one_run:
  "sorted_wrt (\<lambda>a b. fle (key b) (key a)) xs \<Longrightarrow> one_run key xs"
  by (induction key xs rule: one_run.induct) (auto simp: fle_not_flt)

lemma sort_desc_numbers:
  assumes "\<forall>x \<in> set xs. key x \<noteq> NaN"
  shows "sort_desc unordered key xs = foldr (insort_desc key) xs []"
proof (cases "one_run key xs")
  case True
  with assms have "sorted_wrt (\<lambda>a b. fle (key b) (key a)) xs" by (rule one_run_sorted)
  then have "foldr (insort_desc key) xs [] = xs" by (rule foldr_insort_desc_sorted_id)
  with True show ?thesis by (simp add: sort_desc_def)
next
  case False
  with assms show ?thesis by (simp add: sort_desc_def list_ex_iff)
qed

lemma sort_desc_one_run: "one_run key xs \<Longrightarrow> sort_desc unordered key xs = xs"
  by (simp add: sort_desc_def)

subsection \<open>The pass\<close>

lemma rescore_frame: "frame (rescore r c) = frame c"
  by (simp add: rescore_def frame_def split: prod.splits)

lemma rescore_text: "c_text (rescore r c) = c_text c"
  by (simp add: rescore_def split: prod.splits)

lemma rescore_idem: "rescore r (rescore r c) = rescore r c"
  by (simp add: rescore_def split: prod.splits)

lemma rescore_score: "c_score (rescore r c) = fst (score_f r (c_text c))"
  by (simp add: rescore_def split: prod.splits)

lemma rescore_matched: "c_matched (rescore r c) = snd (score_f r (c_text c))"
  by (simp add: rescore_def split: prod.splits)

lemma rank_now_eq:
  "rank_now unordered kws job cands =
     (if cands = [] then []
      else sort_desc unordered c_score (map (rescore (Ranker_init_f kws job)) cands))"
  by (simp add: rank_now_def)

lemma rank_now_numbers:
  assumes "\<forall>c \<in> set cands. fst (score_f (Ranker_init_f kws job) (c_text c)) \<noteq> NaN"
  shows "rank_now unordered kws job cands
           = foldr (insort_desc c_score) (map (rescore (Ranker_init_f kws job)) cands) []"
proof -
  have "\<forall>x \<in> set (map (rescore (Ranker_init_f kws job)) cands). c_score x \<noteq> NaN"
    using assms by (simp add: rescore_score)
  then show ?thesis by (simp add: rank_now_def sort_desc_numbers)
qed



text \<open>A candidate with a lower score that was inserted first moves behind the two.\<close>

lemma rank_now_example:
  "map c_name (rank_now unordered [(''python'', Fin 5)] ''''
       [\<lparr>c_name = ''Z'', c_email = None, c_phone = None, c_path = ''z.pdf'', c_text = ''cobol'',
         c_score = Fin 0, c_matched = [], c_summary = ''''\<rparr>,
        \<lparr>c_name = ''X'', c_email = None, c_phone = None, c_path = ''x.pdf'', c_text = ''python'',
         c_score = Fin 0, c_matched = [], c_summary = ''''\<rparr>,
        \<lparr>c_name = ''Y'', c_email = None, c_phone = None, c_path = ''y.pdf'', c_text = ''PYTHON'',
         c_score = Fin 0, c_matched = [], c_summary = ''''\<rparr>])
     = [''X'', ''Y'', ''Z'']"
  by (simp add: rank_now_def sort_desc_def rescore_def str_eval rank_f_eval)

text \<open>
  A list of two or more elements with a NaN key is in no order sorted: NaN is neither
  above nor below any key. So a pass that gives a candidate the score NaN leaves no
  sorted list, whatever the sort does.
\<close>

lemma nan_key_unsorted:
  assumes "x \<in> set ys" and "key x = NaN" and "2 \<le> length ys"
  shows "\<not> sorted_wrt (\<lambda>a b. fle (key b) (key a)) ys"
proof
  assume s: "sorted_wrt (\<lambda>a b. fle (key b) (key a)) ys"
  from assms(1) obtain k where k: "k < length ys" "ys ! k = x"
    by (auto simp: in_set_conv_nth)
  from assms(3) k(1) obtain m where m: "m < length ys" "m \<noteq> k"
    by (cases "k = 0") (auto intro: that [of 0] that [of 1])
  have nth: "fle (key (ys ! j)) (key (ys ! i))" if "i < j" "j < length ys" for i j
    using s that by (simp add: sorted_wrt_iff_nth_less)
  have x: "key (ys ! k) = NaN" using k(2) assms(2) by simp
  show False
  proof (cases "k < m")
    case True
    then have "fle (key (ys ! m)) (key (ys ! k))" using m(1) by (rule nth)
    then show False using x fle_numbers by blast
  next
    case False
    with m have "m < k" by simp
    then have "fle (key (ys ! k)) (key (ys ! m))" using k(1) by (rule nth)
    then show False using x fle_numbers by blast
  qed
qed

lemma rank_now_nan_unsorted:
  assumes "\<forall>xs. mset (unordered xs) = mset xs"
    and "c \<in> set cands" and "fst (score_f (Ranker_init_f kws job) (c_text c)) = NaN"
    and "2 \<le> length cands"
  shows "\<not> sorted_wrt (\<lambda>a b. fle (c_score b) (c_score a)) (rank_now unordered kws job cands)"
proof -
  let ?r = "Ranker_init_f kws job"
  let ?out = "rank_now unordered kws job cands"
  from assms(2) have ne: "cands \<noteq> []" by auto
  then have m: "mset ?out = mset (map (rescore ?r) cands)"
    using assms(1) by (simp add: rank_now_def mset_sort_desc)
  then have "set ?out = set (map (rescore ?r) cands)" by (rule mset_eq_setD)
  with assms(2) have "rescore ?r c \<in> set ?out" by simp
  moreover have "c_score (rescore ?r c) = NaN" using assms(3) by (simp add: rescore_score)
  moreover have "length ?out = length cands" using m by (metis length_map size_mset)
  ultimately show ?thesis using assms(4) by (intro nan_key_unsorted) auto
qed


text \<open>
  Claim C8. A re-ranking pass with a new keyword profile changes only the score and
  matched fields of each candidate: name, email, phone, path, text and summary are those
  of the candidates before the pass, and no candidate is added or lost, the sort
  rearranging the list it is given. It is idempotent: a candidate ranked twice with the
  same keyword profile and role has the score and matched of the first pass, so a second
  pass leaves the candidates of the first; and when no score is NaN it leaves the whole
  list, in the same order.
\<close>

theorem rank_now_frame_idempotent:
  assumes "\<forall>xs. mset (unordered xs) = mset xs"
  shows "mset (map frame (rank_now unordered kws job cands)) = mset (map frame cands)
   \<and> length (rank_now unordered kws job cands) = length cands
   \<and> rescore (Ranker_init_f kws job) (rescore (Ranker_init_f kws job) c)
       = rescore (Ranker_init_f kws job) c
   \<and> mset (rank_now unordered kws job (rank_now unordered kws job cands))
       = mset (rank_now unordered kws job cands)
   \<and> ((\<forall>c \<in> set cands. fst (score_f (Ranker_init_f kws job) (c_text c)) \<noteq> NaN) \<longrightarrow>
        rank_now unordered kws job (rank_now unordered kws job cands)
          = rank_now unordered kws job cands)"
proof -
  let ?r = "Ranker_init_f kws job"
  let ?out = "rank_now unordered kws job cands"
  have m: "mset ?out = mset (map (rescore ?r) cands)"
    using assms by (simp add: rank_now_def mset_sort_desc)
  have "mset (map frame ?out) = image_mset frame (mset ?out)" by simp
  also have "\<dots> = image_mset frame (mset (map (rescore ?r) cands))"
    by (simp only: m)
  also have "\<dots> = mset (map frame cands)"
    by (simp add: rescore_frame image_mset.compositionality o_def)
  finally have A: "mset (map frame ?out) = mset (map frame cands)" .
  have "length ?out = size (mset ?out)" by simp
  also have "\<dots> = length cands" by (simp only: m) simp
  finally have B: "length ?out = length cands" .
  have "set ?out = rescore ?r ` set cands"
    using m by (metis set_mset_mset set_map)
  then have i: "map (rescore ?r) ?out = ?out"
    by (intro map_idI) (auto simp: rescore_idem)
  have C: "mset (rank_now unordered kws job ?out) = mset ?out"
    using assms by (simp add: rank_now_def [of unordered kws job ?out] i mset_sort_desc)
  have D: "rank_now unordered kws job ?out = ?out"
    if n: "\<forall>c \<in> set cands. fst (score_f ?r (c_text c)) \<noteq> NaN"
  proof -
    have e: "?out = foldr (insort_desc c_score) (map (rescore ?r) cands) []"
      using n by (rule rank_now_numbers)
    have "\<forall>x \<in> set (map (rescore ?r) cands). c_score x \<noteq> NaN"
      using n by (simp add: rescore_score)
    then have "sorted_wrt (\<lambda>a b. fle (c_score b) (c_score a)) ?out"
      unfolding e by (rule sorted_foldr_insort_desc)
    then have "one_run c_score ?out" by (rule sorted_one_run)
    then have "sort_desc unordered c_score ?out = ?out" by (rule sort_desc_one_run)
    then show ?thesis by (simp add: rank_now_def [of unordered kws job ?out] i)
  qed
  from A B C D show ?thesis by (simp add: rescore_idem)
qed

theorem rank_now_frame_idempotent_witness:
  "(\<forall>xs::Candidate list. mset (rev xs) = mset xs)
   \<and> map frame (rank_now rev [(''python'', NaN), (''sql'', Fin 1)] ''''
       [\<lparr>c_name = ''Z'', c_email = None, c_phone = None, c_path = ''z.pdf'', c_text = ''sql'',
         c_score = Fin 0, c_matched = [], c_summary = ''''\<rparr>,
        \<lparr>c_name = ''Y'', c_email = None, c_phone = None, c_path = ''y.pdf'', c_text = ''sql sql'',
         c_score = Fin 0, c_matched = [], c_summary = ''''\<rparr>,
        \<lparr>c_name = ''X'', c_email = None, c_phone = None, c_path = ''x.pdf'', c_text = ''python'',
         c_score = Fin 0, c_matched = [], c_summary = ''''\<rparr>])
     = [(''X'', None, None, ''x.pdf'', ''python'', ''''),
        (''Y'', None, None, ''y.pdf'', ''sql sql'', ''''),
        (''Z'', None, None, ''z.pdf'', ''sql'', '''')]
   \<and> length (rank_now rev [(''python'', NaN), (''sql'', Fin 1)] ''''
       [\<lparr>c_name = ''Z'', c_email = None, c_phone = None, c_path = ''z.pdf'', c_text = ''sql'',
         c_score = Fin 0, c_matched = [], c_summary = ''''\<rparr>,
        \<lparr>c_name = ''Y'', c_email = None, c_phone = None, c_path = ''y.pdf'', c_text = ''sql sql'',
         c_score = Fin 0, c_matched = [], c_summary = ''''\<rparr>,
        \<lparr>c_name = ''X'', c_email = None, c_phone = None, c_path = ''x.pdf'', c_text = ''python'',
         c_score = Fin 0, c_matched = [], c_summary = ''''\<rparr>]) = 3"
proof -
  let ?cs = "[\<lparr>c_name = ''Z'', c_email = None, c_phone = None, c_path = ''z.pdf'', c_text = ''sql'',
         c_score = Fin 0, c_matched = [], c_summary = ''''\<rparr>,
        \<lparr>c_name = ''Y'', c_email = None, c_phone = None, c_path = ''y.pdf'', c_text = ''sql sql'',
         c_score = Fin 0, c_matched = [], c_summary = ''''\<rparr>,
        \<lparr>c_name = ''X'', c_email = None, c_phone = None, c_path = ''x.pdf'', c_text = ''python'',
         c_score = Fin 0, c_matched = [], c_summary = ''''\<rparr>]"
  have p: "\<forall>xs::Candidate list. mset (rev xs) = mset xs" by simp
  from rank_now_frame_idempotent [OF p, of "[(''python'', NaN), (''sql'', Fin 1)]" "''''" ?cs]
  have l: "length (rank_now rev [(''python'', NaN), (''sql'', Fin 1)] '''' ?cs) = length ?cs"
    by blast
  have f: "map frame (rank_now rev [(''python'', NaN), (''sql'', Fin 1)] '''' ?cs)
     = [(''X'', None, None, ''x.pdf'', ''python'', ''''),
        (''Y'', None, None, ''y.pdf'', ''sql sql'', ''''),
        (''Z'', None, None, ''z.pdf'', ''sql'', '''')]"
    by (simp add: rank_now_def sort_desc_def rescore_def frame_def str_eval rank_f_eval)
  from l f p show ?thesis by simp
qed
section \<open>Properties of paths and of the string functions\<close>

text \<open>\<open>basename\<close> is what follows the last slash.\<close>

lemma find_last_append:
  "find_last c (xs @ ys) i f = find_last c ys (i + int (length xs)) (find_last c xs i f)"
  by (induction xs arbitrary: i f) (simp_all add: add.assoc)

lemma find_last_less:
  "f < i \<Longrightarrow> find_last c s i f < i + int (length s)"
proof (induction s arbitrary: i f)
  case Nil
  then show ?case by simp
next
  case (Cons x xs)
  have "(if x = c then i else f) < i + 1" using Cons.prems by simp
  from Cons.IH [OF this] show ?case by simp
qed

lemma find_last_ge:
  "b \<le> f \<Longrightarrow> b \<le> i \<Longrightarrow> b \<le> find_last c s i f"
proof (induction s arbitrary: i f)
  case Nil
  then show ?case by simp
next
  case (Cons x xs)
  have "b \<le> (if x = c then i else f)" "b \<le> i + 1" using Cons.prems by simp_all
  from Cons.IH [OF this] show ?case by simp
qed

lemma rfind_bounds: "- 1 \<le> rfind c s" "rfind c s < int (length s)"
  using find_last_ge [of "- 1" "- 1" 0 c s] find_last_less [of "- 1" 0 c s]
  by (simp_all add: rfind_def)

lemma rfind_snoc: "rfind c (xs @ [x]) = (if x = c then int (length xs) else rfind c xs)"
  by (simp add: rfind_def find_last_append)

lemma basename_takeWhile:
  "basename p = rev (takeWhile (\<lambda>c. c \<noteq> CHR ''/'') (rev p))"
proof (induction p rule: rev_induct)
  case Nil
  then show ?case by (simp add: basename_def)
next
  case (snoc x xs)
  show ?case
  proof (cases "x = CHR ''/''")
    case True
    then show ?thesis by (simp add: basename_def rfind_snoc)
  next
    case False
    have "nat (rfind CHR ''/'' xs + 1) \<le> length xs"
      using rfind_bounds [of "CHR ''/''" xs] by linarith
    then have "basename (xs @ [x]) = basename xs @ [x]"
      using False by (simp add: basename_def rfind_snoc)
    with snoc False show ?thesis by simp
  qed
qed

lemma takeWhile_until:
  "c \<notin> set xs \<Longrightarrow> takeWhile (\<lambda>x. x \<noteq> c) (xs @ c # ys) = xs"
  by (induction xs) auto

lemma takeWhile_absent:
  "c \<notin> set xs \<Longrightarrow> takeWhile (\<lambda>x. x \<noteq> c) xs = xs"
  by (induction xs) auto


lemma basename_append_slash:
  "CHR ''/'' \<notin> set b \<Longrightarrow> basename (a @ CHR ''/'' # b) = b"
proof -
  assume "CHR ''/'' \<notin> set b"
  then have "takeWhile (\<lambda>c. c \<noteq> CHR ''/'') (rev b @ CHR ''/'' # rev a) = rev b"
    by (simp add: takeWhile_until)
  then show ?thesis by (simp add: basename_takeWhile)
qed

lemma basename_plain: "CHR ''/'' \<notin> set b \<Longrightarrow> basename b = b"
  by (simp add: basename_takeWhile takeWhile_absent)

lemma find_last_absent: "c \<notin> set s \<Longrightarrow> find_last c s i f = f"
  by (induction s arbitrary: i) auto

lemma rfind_absent: "c \<notin> set s \<Longrightarrow> rfind c s = - 1"
  by (simp add: rfind_def find_last_absent)

lemma rfind_last_occurrence: "c \<notin> set ys \<Longrightarrow> rfind c (xs @ c # ys) = int (length xs)"
  by (simp add: rfind_def find_last_append find_last_absent)

lemma basename_dir:
  assumes "CHR ''/'' \<notin> set b" and "dir = [] \<or> last dir = CHR ''/''"
  shows "basename (dir @ b) = b"
proof (cases "dir = []")
  case True
  with assms show ?thesis by (simp add: basename_plain)
next
  case False
  with assms(2) have "dir = butlast dir @ ''/''" by (metis append_butlast_last_id)
  then obtain d where "dir = d @ ''/''" ..
  with assms(1) show ?thesis by (simp add: basename_append_slash)
qed

lemma splitext_root_ext:
  assumes "CHR ''/'' \<notin> set stem" and "CHR ''.'' \<notin> set ext" and "CHR ''/'' \<notin> set ext"
    and "\<exists>c \<in> set stem. c \<noteq> CHR ''.''"
  shows "splitext_root (stem @ ''.'' @ ext) = stem"
proof -
  have s: "rfind CHR ''/'' (stem @ CHR ''.'' # ext) = - 1"
    using assms by (simp add: rfind_absent)
  have d: "rfind CHR ''.'' (stem @ CHR ''.'' # ext) = int (length stem)"
    using assms(2) by (rule rfind_last_occurrence)
  show ?thesis
    using assms(4) by (simp add: splitext_root_def s d Let_def list_ex_iff)
qed

subsection \<open>Replacing runs\<close>

lemma sub_runs_keep: "\<forall>c \<in> set w. \<not> P c \<Longrightarrow> sub_runs P (w @ r) = w @ sub_runs P r"
  by (induction w) simp_all

lemma sub_runs_run:
  assumes "s \<noteq> []" and "\<forall>c \<in> set s. P c" and "r = [] \<or> \<not> P (hd r)"
  shows "sub_runs P (s @ r) = CHR '' '' # sub_runs P r"
proof -
  obtain c s' where s: "s = c # s'" using assms(1) by (cases s) auto
  have "dropWhile P (s' @ r) = dropWhile P r"
    using assms(2) s by (simp add: dropWhile_append2)
  also have "\<dots> = r" using assms(3) by (cases r) auto
  finally show ?thesis using s assms(2) by simp
qed

lemma words_with_hd: "w \<noteq> [] \<Longrightarrow> hd (words_with w ws) = hd w"
  by (cases ws) auto

lemma words_with_nonempty: "w \<noteq> [] \<Longrightarrow> words_with w ws \<noteq> []"
  by (cases ws) auto

lemma sub_runs_words:
  assumes "\<forall>v \<in> set (w # map snd ws). v \<noteq> [] \<and> (\<forall>c \<in> set v. \<not> P c)"
    and "\<forall>s \<in> set (map fst ws). s \<noteq> [] \<and> (\<forall>c \<in> set s. P c)"
  shows "sub_runs P (words_with w ws) = join '' '' (w # map snd ws)"
  using assms
proof (induction ws arbitrary: w)
  case Nil
  then show ?case using sub_runs_keep [of w P "[]"] by simp
next
  case (Cons sv rest)
  obtain s v where sv: "sv = (s, v)" by (cases sv)
  from Cons.prems sv have w: "\<forall>c \<in> set w. \<not> P c" and v: "v \<noteq> []" "\<forall>c \<in> set v. \<not> P c"
    and s: "s \<noteq> []" "\<forall>c \<in> set s. P c" by auto
  from Cons.prems sv have ih: "sub_runs P (words_with v rest) = join '' '' (v # map snd rest)"
    by (intro Cons.IH) auto
  have "\<not> P (hd (words_with v rest))" using v by (simp add: words_with_hd)
  then have "sub_runs P (s @ words_with v rest) = CHR '' '' # sub_runs P (words_with v rest)"
    using s by (intro sub_runs_run) auto
  then show ?case using w ih sv by (simp add: sub_runs_keep)
qed

lemma dropWhile_keeps: "x \<in> set xs \<Longrightarrow> \<not> P x \<Longrightarrow> x \<in> set (dropWhile P xs)"
  by (induction xs) auto

lemma sub_runs_chars:
  "c \<in> set (sub_runs P s) \<Longrightarrow> c = CHR '' '' \<or> (c \<in> set s \<and> \<not> P c)"
proof (induction P s rule: sub_runs.induct)
  case (1 P)
  then show ?case by simp
next
  case (2 P x xs)
  then show ?case by (auto split: if_splits dest: set_dropWhileD)
qed

lemma sub_runs_kept: "c \<in> set s \<Longrightarrow> \<not> P c \<Longrightarrow> c \<in> set (sub_runs P s)"
proof (induction P s rule: sub_runs.induct)
  case (1 P)
  then show ?case by simp
next
  case (2 P x xs)
  then show ?case by (auto simp: dropWhile_keeps)
qed

subsection \<open>Trimming\<close>

lemma dropWhile_id: "xs = [] \<or> \<not> P (hd xs) \<Longrightarrow> dropWhile P xs = xs"
  by (cases xs) auto

lemma strip_id:
  assumes "s = [] \<or> (\<not> is_space (hd s) \<and> \<not> is_space (last s))"
  shows "strip s = s"
proof -
  have "dropWhile is_space s = s" using assms by (intro dropWhile_id) auto
  moreover have "dropWhile is_space (rev s) = rev s"
    using assms by (intro dropWhile_id) (auto simp: hd_rev)
  ultimately show ?thesis by (simp add: strip_def)
qed

lemma strip_empty_iff: "(strip s = []) = (\<forall>c \<in> set s. is_space c)"
proof
  assume e: "strip s = []"
  show "\<forall>c \<in> set s. is_space c"
  proof (rule ccontr)
    assume "\<not> (\<forall>c \<in> set s. is_space c)"
    then have ne: "dropWhile is_space s \<noteq> []" by (simp add: dropWhile_eq_Nil_conv)
    then have "\<not> is_space (hd (dropWhile is_space s))" by (rule hd_dropWhile)
    moreover have "hd (dropWhile is_space s) \<in> set (rev (dropWhile is_space s))"
      using ne by simp
    ultimately have "dropWhile is_space (rev (dropWhile is_space s)) \<noteq> []"
      unfolding dropWhile_eq_Nil_conv by blast
    with e show False by (simp add: strip_def)
  qed
next
  assume "\<forall>c \<in> set s. is_space c"
  then have d: "dropWhile is_space s = []" unfolding dropWhile_eq_Nil_conv .
  show "strip s = []" unfolding strip_def d by simp
qed

lemma last_dropWhile: "dropWhile P xs \<noteq> [] \<Longrightarrow> last (dropWhile P xs) = last xs"
  by (metis last_appendR takeWhile_dropWhile_id)

lemma strip_ends:
  assumes "strip s \<noteq> []"
  shows "\<not> is_space (hd (strip s)) \<and> \<not> is_space (last (strip s))"
proof -
  let ?t = "dropWhile is_space s"
  let ?u = "dropWhile is_space (rev ?t)"
  from assms have u: "?u \<noteq> []" by (simp add: strip_def)
  then have t: "?t \<noteq> []" by (metis dropWhile.simps(1) rev.simps(1))
  have "last (strip s) = hd ?u" using u by (simp add: strip_def last_rev)
  moreover have "\<not> is_space (hd ?u)" using u by (rule hd_dropWhile)
  moreover have "hd (strip s) = last ?u" using u by (simp add: strip_def hd_rev)
  moreover have "last ?u = last (rev ?t)" using u by (rule last_dropWhile)
  moreover have "last (rev ?t) = hd ?t" using t by (simp add: last_rev)
  moreover have "\<not> is_space (hd ?t)" using t by (rule hd_dropWhile)
  ultimately show ?thesis by simp
qed

subsection \<open>Joined words\<close>

lemma join_hd: "w \<noteq> [] \<Longrightarrow> hd (join sep (w # ws)) = hd w"
  by (cases ws) auto

lemma join_last:
  "\<forall>v \<in> set (w # ws). v \<noteq> [] \<Longrightarrow> last (join sep (w # ws)) = last (last (w # ws))"
proof (induction ws arbitrary: w)
  case Nil
  then show ?case by simp
next
  case (Cons v ws)
  then have "join sep (v # ws) \<noteq> []" by (cases ws) auto
  with Cons show ?case by simp
qed

lemma join_chars: "c \<in> set (join sep ws) \<Longrightarrow> c \<in> set sep \<or> (\<exists>w \<in> set ws. c \<in> set w)"
  by (induction sep ws rule: join.induct) auto

section \<open>Contact extraction\<close>

text \<open>Rules for evaluating the patterns and the extraction on literals.\<close>

lemma rep_greedy_pos:
  "0 < n \<Longrightarrow> rep_greedy f m n p =
     concat (map (rep_greedy f (m - 1) (n - 1)) (f p)) @ (if m = 0 then [p] else [])"
  by (cases n) simp_all

lemma rep_lazy_pos:
  "0 < n \<Longrightarrow> rep_lazy f m n p =
     (if m = 0 then [p] else []) @ concat (map (rep_lazy f (m - 1) (n - 1)) (f p))"
  by (cases n) simp_all

lemmas rx_eval = re_search_def re_match_def re_search_group1_def span_def is_word_def word_at_def
  EMAIL_RE_def PHONE_RE_def NAME_LINE_RE_def CONTEXT_HEAD_def CONTEXT_TAIL_def ci_def
  email_local_def email_domain_def dash_or_space_def name_letter_def name_char_def
  rep_greedy_pos rep_lazy_pos

lemmas contact_eval = name_from_head_def name_from_context_def filename_base_def
  name_from_filename_def sub_non_name_def strip_def split_ws_def split_sep_def
  basename_def splitext_root_def rfind_def Let_def

lemma extract_contacts_email: "fst (snd (extract_contacts text fn)) = re_search EMAIL_RE text"
  by (simp add: extract_contacts_def Let_def)

lemma extract_contacts_phone: "snd (snd (extract_contacts text fn)) = re_search PHONE_RE text"
  by (simp add: extract_contacts_def Let_def)

lemma extract_contacts_example:
  "extract_contacts ''Jane Doe  +1 555-123-4567 jane.doe@example.com'' ''x.pdf''
     = (''Jane Doe'', Some ''jane.doe@example.com'', Some ''+1 555-123-4567'')"
  by (simp add: extract_contacts_def contact_eval rx_eval str_eval)

subsection \<open>Scenario A\<close>

lemma scenario_A_tokens:
  "findall_alpha3 (lower ''Jane Doe jane.doe@example.com Python Python SQL'')
     = [''jane'', ''doe'', ''jane'', ''doe'', ''example'', ''com'', ''python'', ''python'', ''sql'']"
  by (simp add: str_eval findall_alpha3_def)

lemma scenario_A_distinct:
  "card (set (findall_alpha3 (lower ''Jane Doe jane.doe@example.com Python Python SQL''))) = 6"
  by (simp only: card_set scenario_A_tokens) simp

lemma scenario_A_email:
  "re_search EMAIL_RE ''Jane Doe jane.doe@example.com Python Python SQL''
     = Some ''jane.doe@example.com''"
  by (simp add: rx_eval str_eval)

text \<open>
  Claim C3, amended. With the keyword profile \<open>{python: 2, sql: 1}\<close> and the empty role,
  scoring the text \<open>Jane Doe jane.doe@example.com Python Python SQL\<close> returns the matched
  map \<open>{python: 4.0, sql: 1.0}\<close> and the score 5.0 plus the diversity bonus; the bonus
  comes from the 6 distinct alphabetic tokens of length 3 or more (jane, doe, example,
  com, python, sql) and is 6/500 = 0.012; and \<open>extract_contacts\<close> on this text returns the
  email \<open>jane.doe@example.com\<close>, whatever the fallback filename.
\<close>

theorem scenario_A:
  "score (Ranker_init [(''python'', 2), (''sql'', 1)] '''')
       ''Jane Doe jane.doe@example.com Python Python SQL''
     = (5 + 6 / 500, [(''python'', 4), (''sql'', 1)])
   \<and> card (set (findall_alpha3 (lower ''Jane Doe jane.doe@example.com Python Python SQL''))) = 6
   \<and> diversity (lower ''Jane Doe jane.doe@example.com Python Python SQL'') = 6 / 500
   \<and> fst (snd (extract_contacts ''Jane Doe jane.doe@example.com Python Python SQL'' fn))
       = Some ''jane.doe@example.com''"
proof -
  have "score (Ranker_init [(''python'', 2), (''sql'', 1)] '''')
       ''Jane Doe jane.doe@example.com Python Python SQL''
     = (5 + 6 / 500, [(''python'', 4), (''sql'', 1)])"
    by (simp add: str_eval rank_eval)
  moreover have "diversity (lower ''Jane Doe jane.doe@example.com Python Python SQL'') = 6 / 500"
    by (simp add: diversity_def scenario_A_distinct)
  ultimately show ?thesis
    by (simp add: scenario_A_distinct extract_contacts_email scenario_A_email)
qed

text \<open>
  The scenario as first written takes the bonus from at most 5 distinct tokens; the text
  has 6, the address contributing \<open>example\<close> and \<open>com\<close> besides \<open>jane\<close> and \<open>doe\<close>.
\<close>

theorem scenario_A_counterexample:
  "\<not> card (set (findall_alpha3 (lower ''Jane Doe jane.doe@example.com Python Python SQL''))) \<le> 5"
  by (simp add: scenario_A_distinct)

subsection \<open>The name taken from the file name\<close>

lemma set_strip: "set (strip s) \<subseteq> set s"
proof -
  have "set (strip s) \<subseteq> set (dropWhile is_space s)"
    unfolding strip_def by (auto dest: set_dropWhileD)
  also have "\<dots> \<subseteq> set s"
    by (auto dest: set_dropWhileD)
  finally show ?thesis .
qed

lemma sub_non_name_chars: "c \<in> set (sub_non_name s) \<Longrightarrow> name_char c"
  by (auto simp: sub_non_name_def name_char_def)

lemma filename_base_chars: "c \<in> set (filename_base fn) \<Longrightarrow> name_char c"
  unfolding filename_base_def using set_strip sub_non_name_chars by blast

lemma filename_base_not_placeholder: "filename_base fn \<noteq> ''(Unknown)''"
proof
  assume "filename_base fn = ''(Unknown)''"
  then have "CHR ''('' \<in> set (filename_base fn)" by simp
  then have "name_char CHR ''(''" by (rule filename_base_chars)
  then show False by (simp add: name_char_def name_letter_def str_eval)
qed

lemma name_from_filename_placeholder:
  "(name_from_filename fn = ''(Unknown)'') = (filename_base fn = [])"
  using filename_base_not_placeholder [of fn] by (simp add: name_from_filename_def Let_def)

text \<open>No name found in the text itself can be the placeholder: it has no parenthesis.\<close>

lemma split_sep_from_chars:
  "x \<in> set (split_sep_from sep w s) \<Longrightarrow> set x \<subseteq> set w \<union> set s"
proof (induction sep w s rule: split_sep_from.induct)
  case (1 sep w)
  then show ?case by simp
next
  case (2 sep w c cs)
  show ?case
  proof (cases "prefix sep (c # cs)")
    case True
    with 2 have "x = rev w \<or> set x \<subseteq> set (drop (length sep - 1) cs)"
      by auto
    then show ?thesis
      by (auto dest: in_set_dropD)
  next
    case False
    with 2 show ?thesis by auto
  qed
qed

lemma first_name_line_strip:
  "first_name_line ls = Some n \<Longrightarrow> \<exists>l \<in> set ls. n = strip l"
  by (induction ls) (auto simp: Let_def split: if_splits)

lemma name_from_head_chars:
  assumes "name_from_head text = Some n" and "c \<in> set n"
  shows "name_char c"
proof -
  let ?head = "sub_non_name (join '' '' (take 50 (split_ws (strip (sub_runs is_space text)))))"
  from assms(1) obtain l where l: "l \<in> set (split_sep ''  '' ?head)" and n: "n = strip l"
    by (auto simp: name_from_head_def Let_def dest: first_name_line_strip)
  from l have "set l \<subseteq> set ?head"
    using split_sep_from_chars [of l "''  ''" "[]" ?head] by (simp add: split_sep_def)
  with n assms(2) set_strip [of l] have "c \<in> set ?head" by blast
  then show ?thesis by (rule sub_non_name_chars)
qed

lemma sub_runs2_chars: "set (sub_runs2 P s) \<subseteq> insert CHR '' '' (set s)"
proof (induction P s rule: sub_runs2.induct)
  case (3 P c d cs)
  show ?case
  proof (cases "P c \<and> P d")
    case True
    with 3 have "set (sub_runs2 P (dropWhile P cs)) \<subseteq> insert CHR '' '' (set (dropWhile P cs))"
      by simp
    then show ?thesis using True by (auto dest: set_dropWhileD)
  next
    case False
    with 3 show ?thesis by auto
  qed
qed simp_all

lemma name_from_context_chars:
  assumes "name_from_context text = Some n" and "c \<in> set n"
  shows "name_char c"
proof -
  from assms(1) obtain g where n: "n = sub_runs2 is_space (strip (sub_non_name g))"
    by (auto simp: name_from_context_def Let_def split: option.splits if_splits)
  with assms(2) sub_runs2_chars [of is_space "strip (sub_non_name g)"]
  have "c = CHR '' '' \<or> c \<in> set (strip (sub_non_name g))" by auto
  then show ?thesis
  proof
    assume "c = CHR '' ''"
    then show ?thesis by (simp add: name_char_def)
  next
    assume "c \<in> set (strip (sub_non_name g))"
    with set_strip have "c \<in> set (sub_non_name g)" by blast
    then show ?thesis by (rule sub_non_name_chars)
  qed
qed

lemma not_name_char_paren: "\<not> name_char CHR ''(''"
  by (simp add: name_char_def name_letter_def str_eval)

lemma placeholder_only_from_filename:
  assumes "fst (extract_contacts text fn) = ''(Unknown)''"
  shows "name_from_head text = None \<and> name_from_context text = None \<and> filename_base fn = []"
proof -
  have h: "name_from_head text = None"
  proof (cases "name_from_head text")
    case (Some n)
    with assms have "n = ''(Unknown)''" by (simp add: extract_contacts_def Let_def)
    then have "CHR ''('' \<in> set n" by simp
    with Some have "name_char CHR ''(''" by (rule name_from_head_chars)
    then show ?thesis by (simp add: not_name_char_paren)
  qed simp
  have c: "name_from_context text = None"
  proof (cases "name_from_context text")
    case (Some n)
    with assms h have "n = ''(Unknown)''" by (simp add: extract_contacts_def Let_def)
    then have "CHR ''('' \<in> set n" by simp
    with Some have "name_char CHR ''(''" by (rule name_from_context_chars)
    then show ?thesis by (simp add: not_name_char_paren)
  qed simp
  from assms h c have "name_from_filename fn = ''(Unknown)''"
    by (simp add: extract_contacts_def Let_def)
  then have "filename_base fn = []" by (simp add: name_from_filename_placeholder)
  with h c show ?thesis by simp
qed

lemma no_context_no_name:
  "re_search_group1 CONTEXT_HEAD CONTEXT_TAIL text = None \<Longrightarrow> name_from_context text = None"
  by (simp add: name_from_context_def)

lemma john_smith_resume: "filename_base ''john_smith_resume.pdf'' = ''john smith resume''"
  by (simp add: contact_eval str_eval name_char_def name_letter_def)

text \<open>
  Underscores and hyphens, alone or in runs, become one space each run; a digit or a dot
  becomes a space of its own; the apostrophe stays.
\<close>

lemma mary_jane_oneil:
  "filename_base ''Mary-Jane__O'Neil_CV-2024.final.pdf'' = ''Mary Jane O'Neil CV      final''"
  by (simp add: contact_eval str_eval name_char_def name_letter_def)

text \<open>What a letter is not.\<close>

lemma is_alpha_plain:
  assumes "is_alpha c"
  shows "c \<noteq> CHR ''_''" "c \<noteq> CHR ''-''" "c \<noteq> CHR ''/''" "c \<noteq> CHR ''.''" "c \<noteq> CHR '' ''"
    "\<not> is_space c" "name_char c"
  using assms by (auto simp: str_eval name_char_def name_letter_def less_eq_char_def)

lemma words_with_chars:
  "c \<in> set (words_with w ws) \<Longrightarrow>
     (\<exists>v \<in> set (w # map snd ws). c \<in> set v) \<or> (\<exists>s \<in> set (map fst ws). c \<in> set s)"
  by (induction w ws rule: words_with.induct) auto

text \<open>
  A stem of words of letters, with underscores and hyphens between them, gives the words
  with one space between them, whatever the directory and the extension.
\<close>

lemma filename_base_words:
  assumes words: "\<forall>v \<in> set (w # map snd ws). v \<noteq> [] \<and> (\<forall>c \<in> set v. is_alpha c)"
    and seps: "\<forall>s \<in> set (map fst ws). s \<noteq> [] \<and> (\<forall>c \<in> set s. c = CHR ''_'' \<or> c = CHR ''-'')"
    and ext: "CHR ''.'' \<notin> set ext" "CHR ''/'' \<notin> set ext"
    and dir: "dir = [] \<or> last dir = CHR ''/''"
  shows "filename_base (dir @ words_with w ws @ ''.'' @ ext) = join '' '' (w # map snd ws)"
proof -
  let ?stem = "words_with w ws"
  let ?vs = "w # map snd ws"
  let ?name = "join '' '' ?vs"
  let ?us = "\<lambda>c. c = CHR ''_'' \<or> c = CHR ''-''"
  have word_ne: "v \<noteq> []" if "v \<in> set ?vs" for v using words that by blast
  have word_alpha: "is_alpha c" if "v \<in> set ?vs" "c \<in> set v" for v c using words that by blast
  have sep_us: "?us c" if "s \<in> set (map fst ws)" "c \<in> set s" for s c using seps that by blast
  have w: "w \<noteq> []" using word_ne [of w] by simp
  then have hw: "is_alpha (hd w)" using word_alpha [of w "hd w"] by simp
  have stem_chars: "is_alpha c \<or> ?us c" if "c \<in> set ?stem" for c
    using words_with_chars [OF that] word_alpha sep_us by blast
  have slash: "CHR ''/'' \<notin> set ?stem"
  proof
    assume "CHR ''/'' \<in> set ?stem"
    then have "is_alpha CHR ''/'' \<or> ?us CHR ''/''" by (rule stem_chars)
    then show False by (simp add: str_eval)
  qed
  have "hd ?stem \<in> set ?stem" using w by (simp add: words_with_nonempty)
  moreover have "hd ?stem \<noteq> CHR ''.''" using w hw is_alpha_plain(4) by (simp add: words_with_hd)
  ultimately have dot: "\<exists>c \<in> set ?stem. c \<noteq> CHR ''.''" by blast
  have "CHR ''/'' \<notin> set (?stem @ ''.'' @ ext)" using slash ext by simp
  then have b: "basename (dir @ ?stem @ ''.'' @ ext) = ?stem @ ''.'' @ ext"
    using dir by (rule basename_dir)
  have r: "splitext_root (?stem @ ''.'' @ ext) = ?stem"
    using slash ext dot by (rule splitext_root_ext)
  have "\<forall>v \<in> set ?vs. v \<noteq> [] \<and> (\<forall>c \<in> set v. \<not> ?us c)"
    using words is_alpha_plain(1,2) by blast
  then have s: "sub_runs ?us ?stem = ?name"
    using seps by (rule sub_runs_words)
  have n: "sub_non_name ?name = ?name"
  proof -
    have "name_char c" if "c \<in> set ?name" for c
    proof -
      from join_chars [OF that] have "c = CHR '' '' \<or> (\<exists>v \<in> set ?vs. c \<in> set v)" by simp
      then show ?thesis using word_alpha is_alpha_plain(7) by (auto simp: name_char_def)
    qed
    then show ?thesis unfolding sub_non_name_def by (intro map_idI) simp
  qed
  have t: "strip ?name = ?name"
  proof -
    have "hd ?name = hd w" using w by (rule join_hd)
    then have h: "\<not> is_space (hd ?name)" using hw is_alpha_plain(6) by simp
    have l: "last ?name = last (last ?vs)"
      using word_ne by (intro join_last) blast
    have m: "last ?vs \<in> set ?vs" by (rule last_in_set) simp
    then have "last ?vs \<noteq> []" by (rule word_ne)
    then have "last (last ?vs) \<in> set (last ?vs)" by (rule last_in_set)
    with m have "is_alpha (last (last ?vs))" by (rule word_alpha)
    then have "\<not> is_space (last ?name)" using l is_alpha_plain(6) by simp
    with h show ?thesis by (intro strip_id) simp
  qed
  show ?thesis unfolding filename_base_def b r s n t ..
qed

text \<open>
  The derived string is empty exactly when the file name, without directory and
  extension, has no letter and no apostrophe.
\<close>

lemma filename_base_empty_iff:
  "(filename_base fn = []) =
     (\<forall>c \<in> set (splitext_root (basename fn)). \<not> is_alpha c \<and> c \<noteq> CHR 0x27)"
proof -
  let ?us = "\<lambda>c. c = CHR ''_'' \<or> c = CHR ''-''"
  let ?root = "splitext_root (basename fn)"
  have sp: "is_space (if name_char c then c else CHR '' '') = (\<not> is_alpha c \<and> c \<noteq> CHR 0x27 \<and> c \<noteq> CHR ''-'')"
    for c
    by (auto simp: name_char_def name_letter_def str_eval less_eq_char_def)
  have "(filename_base fn = []) = (\<forall>c \<in> set (sub_runs ?us ?root). is_space (if name_char c then c else CHR '' ''))"
    by (simp only: filename_base_def strip_empty_iff sub_non_name_def set_map ball_simps)
  also have "\<dots> = (\<forall>c \<in> set (sub_runs ?us ?root). \<not> is_alpha c \<and> c \<noteq> CHR 0x27 \<and> c \<noteq> CHR ''-'')"
    by (simp only: sp)
  also have "\<dots> = (\<forall>c \<in> set ?root. \<not> is_alpha c \<and> c \<noteq> CHR 0x27)"
  proof
    assume a: "\<forall>c \<in> set (sub_runs ?us ?root). \<not> is_alpha c \<and> c \<noteq> CHR 0x27 \<and> c \<noteq> CHR ''-''"
    show "\<forall>c \<in> set ?root. \<not> is_alpha c \<and> c \<noteq> CHR 0x27"
    proof
      fix c assume c: "c \<in> set ?root"
      show "\<not> is_alpha c \<and> c \<noteq> CHR 0x27"
      proof (cases "?us c")
        case True
        then show ?thesis using is_alpha_plain(1,2) by auto
      next
        case False
        with c have "c \<in> set (sub_runs ?us ?root)" by (intro sub_runs_kept)
        with a show ?thesis by blast
      qed
    qed
  next
    assume a: "\<forall>c \<in> set ?root. \<not> is_alpha c \<and> c \<noteq> CHR 0x27"
    show "\<forall>c \<in> set (sub_runs ?us ?root). \<not> is_alpha c \<and> c \<noteq> CHR 0x27 \<and> c \<noteq> CHR ''-''"
    proof
      fix c assume "c \<in> set (sub_runs ?us ?root)"
      then have "c = CHR '' '' \<or> (c \<in> set ?root \<and> \<not> ?us c)" by (rule sub_runs_chars)
      with a show "\<not> is_alpha c \<and> c \<noteq> CHR 0x27 \<and> c \<noteq> CHR ''-''"
        using is_alpha_plain(5) by auto
    qed
  qed
  finally show ?thesis .
qed

text \<open>
  The derived string holds letters, apostrophes and spaces only, no underscore and no
  hyphen, and neither begins nor ends with a space.
\<close>

lemma filename_base_letters:
  assumes "c \<in> set (filename_base fn)"
  shows "is_alpha c \<or> c = CHR 0x27 \<or> c = CHR '' ''"
proof -
  let ?us = "\<lambda>c. c = CHR ''_'' \<or> c = CHR ''-''"
  let ?t = "sub_runs ?us (splitext_root (basename fn))"
  from assms set_strip have "c \<in> set (sub_non_name ?t)"
    unfolding filename_base_def by blast
  then obtain x where x: "x \<in> set ?t" and c: "c = (if name_char x then x else CHR '' '')"
    by (auto simp: sub_non_name_def)
  from x have "x = CHR '' '' \<or> \<not> ?us x" using sub_runs_chars [of x ?us] by blast
  with c show ?thesis by (auto simp: name_char_def name_letter_def)
qed

lemma filename_base_trimmed:
  assumes "filename_base fn \<noteq> []"
  shows "hd (filename_base fn) \<noteq> CHR '' '' \<and> last (filename_base fn) \<noteq> CHR '' ''"
proof -
  have sp: "is_space CHR '' ''" by (simp add: str_eval)
  from assms have "\<not> is_space (hd (filename_base fn)) \<and> \<not> is_space (last (filename_base fn))"
    unfolding filename_base_def by (rule strip_ends)
  with sp show ?thesis by auto
qed

text \<open>
  Claim C7. When \<open>extract_contacts\<close> is called with a text that has no acceptable
  capitalized name segment and no \<open>Email\<close> or \<open>@\<close> context, the name is derived from the
  fallback filename by stripping the directory and the extension, replacing underscores
  and hyphens with spaces, and blanking the characters that cannot stand in a name, then
  trimming. So a file name whose stem is words of letters with underscores and hyphens,
  alone or in runs, between them gives the words with one space between them, whatever
  the directory and the extension; for \<open>john_smith_resume.pdf\<close> this is
  \<open>john smith resume\<close>. A name derived from the file name holds letters, apostrophes
  and spaces only and has no space at either end. The placeholder \<open>(Unknown)\<close> is
  returned only when the derived string is empty, which is when the file name without
  directory and extension has no letter and no apostrophe; and for any text at all the
  placeholder is returned only then.
\<close>

theorem name_from_fallback_filename:
  assumes "name_from_head text = None"
    and "re_search_group1 CONTEXT_HEAD CONTEXT_TAIL text = None"
  shows "fst (extract_contacts text fn)
           = (if filename_base fn = [] then ''(Unknown)'' else filename_base fn)
     \<and> (fst (extract_contacts text fn) = ''(Unknown)'') = (filename_base fn = [])
     \<and> fst (extract_contacts text ''john_smith_resume.pdf'') = ''john smith resume''
     \<and> (fst (extract_contacts t fn) = ''(Unknown)'' \<longrightarrow> filename_base fn = [])
     \<and> ((\<forall>v \<in> set (w # map snd ws). v \<noteq> [] \<and> (\<forall>c \<in> set v. is_alpha c))
          \<and> (\<forall>s \<in> set (map fst ws). s \<noteq> [] \<and> (\<forall>c \<in> set s. c = CHR ''_'' \<or> c = CHR ''-''))
          \<and> CHR ''.'' \<notin> set ext \<and> CHR ''/'' \<notin> set ext \<and> (dir = [] \<or> last dir = CHR ''/'') \<longrightarrow>
        fst (extract_contacts text (dir @ words_with w ws @ ''.'' @ ext))
          = join '' '' (w # map snd ws))
     \<and> fst (extract_contacts text ''Mary-Jane__O'Neil_CV-2024.final.pdf'')
          = ''Mary Jane O'Neil CV      final''
     \<and> (fst (extract_contacts text fn) = ''(Unknown)'')
          = (\<forall>c \<in> set (splitext_root (basename fn)). \<not> is_alpha c \<and> c \<noteq> CHR 0x27)
     \<and> (fst (extract_contacts text fn) \<noteq> ''(Unknown)'' \<longrightarrow>
          (\<forall>c \<in> set (fst (extract_contacts text fn)). is_alpha c \<or> c = CHR 0x27 \<or> c = CHR '' '')
          \<and> hd (fst (extract_contacts text fn)) \<noteq> CHR '' ''
          \<and> last (fst (extract_contacts text fn)) \<noteq> CHR '' '')"
proof -
  have n: "fst (extract_contacts text f) = name_from_filename f" for f
    using assms by (simp add: extract_contacts_def Let_def no_context_no_name)
  have A: "fst (extract_contacts text fn)
           = (if filename_base fn = [] then ''(Unknown)'' else filename_base fn)"
    by (simp add: n name_from_filename_def Let_def)
  have B: "(fst (extract_contacts text fn) = ''(Unknown)'') = (filename_base fn = [])"
    by (simp only: n name_from_filename_placeholder)
  have C: "fst (extract_contacts text ''john_smith_resume.pdf'') = ''john smith resume''"
    by (simp add: n name_from_filename_def john_smith_resume)
  have D: "filename_base fn = []" if "fst (extract_contacts t fn) = ''(Unknown)''"
    using that by (simp add: placeholder_only_from_filename)
  have E: "fst (extract_contacts text (dir @ words_with w ws @ ''.'' @ ext))
          = join '' '' (w # map snd ws)"
    if "\<forall>v \<in> set (w # map snd ws). v \<noteq> [] \<and> (\<forall>c \<in> set v. is_alpha c)"
      and "\<forall>s \<in> set (map fst ws). s \<noteq> [] \<and> (\<forall>c \<in> set s. c = CHR ''_'' \<or> c = CHR ''-'')"
      and "CHR ''.'' \<notin> set ext" and "CHR ''/'' \<notin> set ext" and "dir = [] \<or> last dir = CHR ''/''"
  proof -
    have f: "filename_base (dir @ words_with w ws @ ''.'' @ ext) = join '' '' (w # map snd ws)"
      using that by (rule filename_base_words)
    from that(1) have "w \<noteq> []" by simp
    then have "join '' '' (w # map snd ws) \<noteq> []" by (cases "map snd ws") auto
    with f show ?thesis by (simp only: n name_from_filename_def Let_def) simp
  qed
  have F: "fst (extract_contacts text ''Mary-Jane__O'Neil_CV-2024.final.pdf'')
          = ''Mary Jane O'Neil CV      final''"
    by (simp add: n name_from_filename_def mary_jane_oneil)
  have G: "(fst (extract_contacts text fn) = ''(Unknown)'')
          = (\<forall>c \<in> set (splitext_root (basename fn)). \<not> is_alpha c \<and> c \<noteq> CHR 0x27)"
    by (simp only: B filename_base_empty_iff)
  have H: "(\<forall>c \<in> set (fst (extract_contacts text fn)). is_alpha c \<or> c = CHR 0x27 \<or> c = CHR '' '')
          \<and> hd (fst (extract_contacts text fn)) \<noteq> CHR '' ''
          \<and> last (fst (extract_contacts text fn)) \<noteq> CHR '' ''"
    if "fst (extract_contacts text fn) \<noteq> ''(Unknown)''"
  proof -
    from that B have ne: "filename_base fn \<noteq> []" by simp
    with A have "fst (extract_contacts text fn) = filename_base fn" by simp
    then show ?thesis using filename_base_letters [of _ fn] filename_base_trimmed [OF ne] by auto
  qed
  from A B C D E F G H show ?thesis by blast
qed

theorem name_from_fallback_filename_witness:
  "name_from_head ''curriculum vitae 2024'' = None
   \<and> re_search_group1 CONTEXT_HEAD CONTEXT_TAIL ''curriculum vitae 2024'' = None
   \<and> fst (extract_contacts ''curriculum vitae 2024'' ''/tmp/cache/john_smith_resume.pdf'')
       = ''john smith resume''
   \<and> fst (extract_contacts ''curriculum vitae 2024'' ''Anna-Maria__Rossi.PDF'')
       = ''Anna Maria Rossi''
   \<and> filename_base ''/tmp/cache/2024_(1).pdf'' = []
   \<and> fst (extract_contacts ''curriculum vitae 2024'' ''/tmp/cache/2024_(1).pdf'') = ''(Unknown)''"
proof -
  have h: "name_from_head ''curriculum vitae 2024'' = None"
    by (simp add: contact_eval rx_eval str_eval)
  have c: "re_search_group1 CONTEXT_HEAD CONTEXT_TAIL ''curriculum vitae 2024'' = None"
    by (simp add: contact_eval rx_eval str_eval)
  have e: "filename_base ''/tmp/cache/2024_(1).pdf'' = []"
    by (simp add: contact_eval str_eval name_char_def name_letter_def)
  have j: "fst (extract_contacts ''curriculum vitae 2024''
        (''/tmp/cache/'' @ words_with ''john'' [(''_'', ''smith''), (''_'', ''resume'')] @ ''.'' @ ''pdf''))
      = join '' '' (''john'' # map snd [(''_'', ''smith''), (''_'', ''resume'')])"
    using name_from_fallback_filename [OF h c, of "''x''" "''x''" "''john''"
        "[(''_'', ''smith''), (''_'', ''resume'')]" "''pdf''" "''/tmp/cache/''"]
    by (simp add: str_eval)
  have a: "fst (extract_contacts ''curriculum vitae 2024''
        ([] @ words_with ''Anna'' [(''-'', ''Maria''), (''__'', ''Rossi'')] @ ''.'' @ ''PDF''))
      = join '' '' (''Anna'' # map snd [(''-'', ''Maria''), (''__'', ''Rossi'')])"
    using name_from_fallback_filename [OF h c, of "''x''" "''x''" "''Anna''"
        "[(''-'', ''Maria''), (''__'', ''Rossi'')]" "''PDF''" "[]"]
    by (simp add: str_eval)
  from name_from_fallback_filename [OF h c, of "''/tmp/cache/2024_(1).pdf''"]
  have u: "fst (extract_contacts ''curriculum vitae 2024'' ''/tmp/cache/2024_(1).pdf'') = ''(Unknown)''"
    using e by simp
  from j a u show ?thesis using h c e by simp
qed
section \<open>Text extraction never raises\<close>

lemma parse_pdf_total: "\<exists>s. parse_pdf ev p = Inr s"
  by (simp add: parse_pdf_def try_except_def split: sum.splits)

lemma parse_pdf_failure:
  "parse_pdf_body ev p = Inl e \<Longrightarrow> parse_pdf ev p = Inr (PARSE_ERROR @ '' '' @ message e)"
  by (simp add: parse_pdf_def try_except_def)

lemma parse_pdf_library_failure:
  "HAS_PDFMINER ev \<Longrightarrow> pdfminer_extract_text ev = Some ex \<Longrightarrow> ex p = Inl e \<Longrightarrow>
   parse_pdf_body ev p = Inl e"
  by (simp add: parse_pdf_body_def)

lemma parse_pdf_read_failure:
  "\<not> HAS_PDFMINER ev \<or> pdfminer_extract_text ev = None \<Longrightarrow> read_file ev p = Inl e \<Longrightarrow>
   parse_pdf_body ev p = Inl e"
  by (auto simp: parse_pdf_body_def)

text \<open>The body fails in no other way: the decoding and the scans are total.\<close>

lemma parse_pdf_body_failure_cases:
  "parse_pdf_body ev p = Inl e \<Longrightarrow>
   (HAS_PDFMINER ev \<and> (\<exists>ex. pdfminer_extract_text ev = Some ex \<and> ex p = Inl e))
   \<or> ((\<not> HAS_PDFMINER ev \<or> pdfminer_extract_text ev = None) \<and> read_file ev p = Inl e)"
  by (auto simp: parse_pdf_body_def split: option.splits sum.splits if_splits)

lemmas pdf_eval = parse_pdf_def parse_pdf_body_def try_except_def normalize_ws_def scavenge_def
  flush_def keep_byte_def PDF_MAGIC_def PARSE_ERROR_def decode_ascii_def re_sub_def CID_RE_def
  strip_def Let_def

lemma parse_pdf_scavenge_example:
  "parse_pdf \<lparr>HAS_PDFMINER = False, pdfminer_extract_text = None,
       read_file = (\<lambda>p. Inr (''%PDF '' @ [CHR 0x01, CHR 0xFF] @ ''John (cid:3)Doe''
                              @ [CHR 0x00, CHR 0x0A] @ ''x'')),
       decode_ignore = decode_ascii\<rparr> ''cv.pdf''
     = Inr ''%PDF John Doe x''"
  by (simp add: pdf_eval str_eval)

text \<open>
  Claim C4. For every input path and whatever the surroundings do, \<open>CVProcessor.parse_pdf\<close>
  raises no exception to its caller: it returns a string. Whenever an internal step
  fails, the extraction by the library or the opening and reading of the file (the
  decoding cannot fail), the string returned is the error marker \<open>[PARSE_ERROR]\<close>, a
  space and the description of the failure.
\<close>

theorem parse_pdf_never_raises:
  "(\<exists>s. parse_pdf ev p = Inr s)
   \<and> (HAS_PDFMINER ev \<and> pdfminer_extract_text ev = Some ex \<and> ex p = Inl e \<longrightarrow>
        parse_pdf ev p = Inr (PARSE_ERROR @ '' '' @ message e))
   \<and> ((\<not> HAS_PDFMINER ev \<or> pdfminer_extract_text ev = None) \<and> read_file ev p = Inl e \<longrightarrow>
        parse_pdf ev p = Inr (PARSE_ERROR @ '' '' @ message e))
   \<and> (parse_pdf_body ev p = Inl e \<longrightarrow>
        (\<exists>s. parse_pdf ev p = Inr s \<and> prefix PARSE_ERROR s))"
proof -
  have A: "\<exists>s. parse_pdf ev p = Inr s" by (rule parse_pdf_total)
  have B: "parse_pdf ev p = Inr (PARSE_ERROR @ '' '' @ message e)"
    if "HAS_PDFMINER ev" "pdfminer_extract_text ev = Some ex" "ex p = Inl e"
    using that by (intro parse_pdf_failure parse_pdf_library_failure)
  have C: "parse_pdf ev p = Inr (PARSE_ERROR @ '' '' @ message e)"
    if "\<not> HAS_PDFMINER ev \<or> pdfminer_extract_text ev = None" "read_file ev p = Inl e"
    using that by (intro parse_pdf_failure parse_pdf_read_failure)
  have D: "\<exists>s. parse_pdf ev p = Inr s \<and> prefix PARSE_ERROR s"
    if "parse_pdf_body ev p = Inl e"
    using parse_pdf_failure [OF that] by simp
  from A B C D show ?thesis by blast
qed

theorem parse_pdf_never_raises_witness:
  "read_file \<lparr>HAS_PDFMINER = False, pdfminer_extract_text = None,
       read_file = (\<lambda>p. Inl (Exception ''[Errno 2] No such file or directory'')),
       decode_ignore = decode_ascii\<rparr> ''cv.pdf''
     = Inl (Exception ''[Errno 2] No such file or directory'')
   \<and> parse_pdf \<lparr>HAS_PDFMINER = False, pdfminer_extract_text = None,
       read_file = (\<lambda>p. Inl (Exception ''[Errno 2] No such file or directory'')),
       decode_ignore = decode_ascii\<rparr> ''cv.pdf''
     = Inr ''[PARSE_ERROR] [Errno 2] No such file or directory''
   \<and> parse_pdf \<lparr>HAS_PDFMINER = True,
       pdfminer_extract_text = Some (\<lambda>p. Inl (Exception ''No /Root object!'')),
       read_file = (\<lambda>p. Inr ''%PDF-1.4''), decode_ignore = decode_ascii\<rparr> ''cv.pdf''
     = Inr ''[PARSE_ERROR] No /Root object!''"
proof -
  let ?r = "\<lparr>HAS_PDFMINER = False, pdfminer_extract_text = None,
       read_file = (\<lambda>p. Inl (Exception ''[Errno 2] No such file or directory'')),
       decode_ignore = decode_ascii\<rparr>"
  let ?l = "\<lparr>HAS_PDFMINER = True,
       pdfminer_extract_text = Some (\<lambda>p. Inl (Exception ''No /Root object!'')),
       read_file = (\<lambda>p. Inr ''%PDF-1.4''), decode_ignore = decode_ascii\<rparr>"
  have r: "(\<not> HAS_PDFMINER ?r \<or> pdfminer_extract_text ?r = None)
      \<and> read_file ?r ''cv.pdf'' = Inl (Exception ''[Errno 2] No such file or directory'')"
    by simp
  have l: "HAS_PDFMINER ?l
      \<and> pdfminer_extract_text ?l = Some (\<lambda>p. Inl (Exception ''No /Root object!''))
      \<and> (\<lambda>p. Inl (Exception ''No /Root object!'')) ''cv.pdf'' = Inl (Exception ''No /Root object!'')"
    by simp
  from parse_pdf_never_raises [of ?r "''cv.pdf''" "\<lambda>p. Inl (Exception ''x'')"
      "Exception ''[Errno 2] No such file or directory''"] r
  have a: "parse_pdf ?r ''cv.pdf''
      = Inr (PARSE_ERROR @ '' '' @ message (Exception ''[Errno 2] No such file or directory''))"
    by blast
  from parse_pdf_never_raises [of ?l "''cv.pdf''" "\<lambda>p. Inl (Exception ''No /Root object!'')"
      "Exception ''No /Root object!''"] l
  have b: "parse_pdf ?l ''cv.pdf'' = Inr (PARSE_ERROR @ '' '' @ message (Exception ''No /Root object!''))"
    by blast
  from a b show ?thesis by (simp add: PARSE_ERROR_def)
qed

section \<open>The archive expander\<close>





lemmas files_eval = path_join_def normpath_def abspath_def zip_extract_def shutil_move_def
  is_pdf_member_def member_dest_def member_src_def unzip_member_def unzip_pdfs_def fs_remove_def
  suffix_to_prefix basename_def rfind_def split_sep_def dict_get_def Let_def


text \<open>
  A member whose name does not lead to the file that \<open>extract\<close> wrote is returned at that
  name, and the file stays where it was extracted.
\<close>

lemma unzip_not_relocated_example:
  "unzip_pdfs ''/'' ''/tmp/ocpro_1'' [(''../b/cv2.PDF'', ''B''), (''readme.txt'', ''R'')] []
     = ([''/tmp/ocpro_1/../b/cv2.PDF''], [(''/tmp/ocpro_1/b/cv2.PDF'', ''B'')])"
  by (simp add: files_eval str_eval)




end
